theory Spec2Isabelle
  imports Main
begin

section \<open>The request interceptor of the endorser service\<close>

subsection \<open>Messages, envelopes and errors\<close>

text \<open>
  Modelled from the spec: \<^verbatim>\<open>pb.XChainErrorEnum\<close>, the wire status enumeration, is not
  among the sources. The interceptor names one of its values,
  \<^verbatim>\<open>XChainErrorEnum_UNKNOW_ERROR\<close>; the spec names the success value; every other value
  is a \<open>WireCode\<close>.
\<close>

datatype XChainErrorEnum = SUCCESS | UNKNOW_ERROR | WireCode nat

text \<open>\<^verbatim>\<open>pb.Header\<close>: the envelope carried by every request and response.\<close>

record Header =
  Logid :: string
  FromNode :: string
  Error :: XChainErrorEnum

text \<open>
  A protobuf message with a \<^verbatim>\<open>Header\<close> field. The field is a pointer, so it may be nil
  (\<open>None\<close>); \<open>payload\<close> stands for the other fields of the message. For such a message
  \<^verbatim>\<open>GetHeader()\<close> returns the field, and the reflective lookup
  \<^verbatim>\<open>FieldByName("Header")\<close> finds a valid, settable field.
\<close>

record 'a Msg =
  Header :: "Header option"
  payload :: 'a

text \<open>The nil-safe getters protobuf generates for a \<^verbatim>\<open>*pb.Header\<close>.\<close>

definition GetLogid :: "Header option \<Rightarrow> string" where
  "GetLogid h = (case h of None \<Rightarrow> [] | Some x \<Rightarrow> Logid x)"

definition GetFromNode :: "Header option \<Rightarrow> string" where
  "GetFromNode h = (case h of None \<Rightarrow> [] | Some x \<Rightarrow> FromNode x)"

text \<open>\<^verbatim>\<open>ecom.Error\<close>: the engine's standard error descriptor.\<close>

record ecom_Error =
  Status :: int
  Code :: int
  Msg :: string

text \<open>
  A Go \<^verbatim>\<open>error\<close> value: one made by \<^verbatim>\<open>fmt.Errorf\<close>, or a standard
  \<^verbatim>\<open>*ecom.Error\<close>.
\<close>

datatype goerror = Errorf string | StdError ecom_Error

text \<open>What a Go call yields: its results, or a panic with the panic value.\<close>

datatype 'a go = Value 'a | Panicked string

subsection \<open>Transport context and request context\<close>

text \<open>
  \<^verbatim>\<open>peer.Peer\<close> with its \<^verbatim>\<open>Addr\<close> (a \<^verbatim>\<open>net.Addr\<close>, nil or an address, read
  through \<^verbatim>\<open>String()\<close>).
\<close>

record Peer =
  Addr :: "string option"

text \<open>
  Modelled from the spec: \<^verbatim>\<open>sctx.ReqCtx\<close>, the per-call request context, is not among
  the sources; the spec's RequestContext holds the client address and the correlation id
  (its logger and timer carry no data here).
\<close>

record ReqCtx =
  client_address :: string
  correlation_id :: string

text \<open>
  The \<^verbatim>\<open>context.Context\<close> of a call: the peer gRPC stored in it, if any, and the request
  context stored in it (a nil interface value when \<open>None\<close>).
\<close>

record Context =
  peer :: "Peer option"
  ctxReqCtx :: "ReqCtx option"

text \<open>
  Modelled from the spec: \<^verbatim>\<open>sctx.WithReqCtx\<close> is not among the sources; it returns the
  context with the request context stored in it.
\<close>

definition WithReqCtx :: "Context \<Rightarrow> ReqCtx option \<Rightarrow> Context" where
  "WithReqCtx c r = c\<lparr>ctxReqCtx := r\<rparr>"

subsection \<open>Collaborators taken as parameters\<close>

text \<open>
  What the interceptor uses and the sources do not define:
  \<^item> \<open>ErrSuccess\<close>: the descriptor \<^verbatim>\<open>ecom.ErrSuccess\<close>;
  \<^item> \<open>CastError\<close>: \<^verbatim>\<open>ecom.CastError\<close>, from an error to a descriptor pointer;
  \<^item> \<open>StdErrToXchainErrMap\<close>: the table \<^verbatim>\<open>acom.StdErrToXchainErrMap\<close>, keyed by
    descriptor code;
  \<^item> \<open>GetHostName\<close>: \<^verbatim>\<open>utils.GetHostName()\<close>;
  \<^item> \<open>GenLogId\<close>: \<^verbatim>\<open>utils.GenLogId()\<close>; \<open>GenLogId env k\<close> is what its \<open>k\<close>-th call
    returns;
  \<^item> \<open>NewReqCtxErr\<close>: the error \<^verbatim>\<open>sctx.NewReqCtx\<close> reports, if it reports one.
\<close>

record Env =
  ErrSuccess :: ecom_Error
  CastError :: "goerror \<Rightarrow> ecom_Error option"
  StdErrToXchainErrMap :: "int \<Rightarrow> XChainErrorEnum option"
  GetHostName :: string
  GenLogId :: "nat \<Rightarrow> string"
  NewReqCtxErr :: "goerror option"

text \<open>
  Modelled from the spec: \<^verbatim>\<open>sctx.NewReqCtx\<close> builds the request context from the
  correlation id and the derived address.
\<close>

definition NewReqCtx :: "Env \<Rightarrow> string \<Rightarrow> string \<Rightarrow> ReqCtx option \<times> goerror option" where
  "NewReqCtx env logid clientIp =
     (case NewReqCtxErr env of
        Some e \<Rightarrow> (None, Some e)
      | None \<Rightarrow> (Some \<lparr>client_address = clientIp, correlation_id = logid\<rparr>, None))"

subsection \<open>Log lines\<close>

datatype field = S string | I int

datatype logline =
  LogError string "field list"
| LogTrace string "field list"
| LogInfo string "field list"

subsection \<open>\<^verbatim>\<open>getClietIP\<close> and \<^verbatim>\<open>createReqCtx\<close>\<close>

text \<open>
  \<^verbatim>\<open>strings.Split(s, sep)\<close> for a separator of one byte: the pieces of \<open>s\<close> between
  the occurrences of \<open>sep\<close>.
\<close>

fun Split :: "string \<Rightarrow> char \<Rightarrow> string list" where
  "Split [] sep = [[]]"
| "Split (c # cs) sep =
     (if c = sep then [] # Split cs sep
      else (case Split cs sep of [] \<Rightarrow> [[c]] | x # xs \<Rightarrow> (c # x) # xs))"

text \<open>
  \<^verbatim>\<open>
  pr, ok := peer.FromContext(gctx)
  if !ok { return "", fmt.Errorf("create peer form context failed") }
  if pr.Addr == nil || pr.Addr == net.Addr(nil) {
      return "", fmt.Errorf("get client_ip failed because peer.Addr is nil") }
  addrSlice := strings.Split(pr.Addr.String(), ":")
  return addrSlice[0], nil
  \<close>
  Indexing an empty slice panics.
\<close>

definition getClietIP :: "Context \<Rightarrow> (string \<times> goerror option) go" where
  "getClietIP gctx =
     (case peer gctx of
        None \<Rightarrow> Value ([], Some (Errorf ''create peer form context failed''))
      | Some pr \<Rightarrow>
          (case Addr pr of
             None \<Rightarrow> Value ([], Some (Errorf ''get client_ip failed because peer.Addr is nil''))
           | Some a \<Rightarrow>
               (case Split a CHR '':'' of
                  [] \<Rightarrow> Panicked ''index out of range''
                | x # _ \<Rightarrow> Value (x, None))))"

text \<open>
  \<^verbatim>\<open>createReqCtx\<close> returns the request context or nil with an error; it writes to the
  server log, so the log is passed in and returned.
\<close>

definition createReqCtx ::
  "Env \<Rightarrow> Context \<Rightarrow> Header option \<Rightarrow> logline list \<Rightarrow>
     ((ReqCtx option \<times> goerror option) \<times> logline list) go" where
  "createReqCtx env gctx reqHeader lg =
     (case getClietIP gctx of
        Panicked e \<Rightarrow> Panicked e
      | Value (clientIp, Some e) \<Rightarrow>
          Value ((None, Some (Errorf ''get client ip failed'')),
                 lg @ [LogError ''access proc failed because get client ip failed'' []])
      | Value (clientIp, None) \<Rightarrow>
          (case NewReqCtx env (GetLogid reqHeader) clientIp of
             (_, Some e) \<Rightarrow>
               Value ((None, Some (Errorf ''create request context failed'')),
                      lg @ [LogError ''access proc failed because create request context failed'' []])
           | (rctx, None) \<Rightarrow> Value ((rctx, None), lg)))"

subsection \<open>The interceptor\<close>

text \<open>
  The handler gRPC passes to the interceptor: called with the context and the request, it
  returns a response (a pointer to a message, or nil) and an error (or nil), or it panics.
  It is taken as not writing to the request.
\<close>

datatype 'b HandlerResult =
  HandlerReturns "'b Msg option" "goerror option"
| HandlerPanics string

text \<open>
  The variables of one run of the interceptor closure, and what it changes outside itself:
  the request (updated in place through its pointer), the named results \<open>respRes\<close> and
  \<open>err\<close>, the locals \<open>ctx\<close>, \<open>reqCtx\<close>, \<open>logFields\<close> and \<open>stdErr\<close>, the log written so
  far and the number of calls of \<^verbatim>\<open>utils.GenLogId\<close> made so far.
\<close>

record ('a, 'b) Frame =
  req :: "'a Msg"
  ctx :: Context
  reqCtx :: "ReqCtx option"
  logFields :: "field list"
  stdErr :: "ecom_Error option"
  respRes :: "'b Msg option"
  err :: "goerror option"
  logs :: "logline list"
  logids :: nat

text \<open>
  A stage of the body ends in a frame and, when it panicked, the panic value. A panic skips
  the stages after it.
\<close>

type_synonym ('a, 'b) stage = "('a, 'b) Frame \<Rightarrow> ('a, 'b) Frame \<times> string option"

definition andThen :: "('a, 'b) stage \<Rightarrow> ('a, 'b) stage \<Rightarrow> ('a, 'b) stage" where
  "andThen f g s = (case f s of (s', None) \<Rightarrow> g s' | (s', Some e) \<Rightarrow> (s', Some e))"

text \<open>
  \<^verbatim>\<open>
  return &pb.Header{Logid: utils.GenLogId(), FromNode: "", Error: pb.XChainErrorEnum_UNKNOW_ERROR}
  \<close>
  \<open>k\<close> is the number of ids generated before.
\<close>

definition defReqHeader :: "Env \<Rightarrow> nat \<Rightarrow> Header" where
  "defReqHeader env k = \<lparr>Logid = GenLogId env k, FromNode = [], Error = UNKNOW_ERROR\<rparr>"

text \<open>
  \<^verbatim>\<open>
  if req.(HeaderInterface).GetHeader() == nil {
      header := reflect.ValueOf(req).Elem().FieldByName("Header")
      if header.IsValid() && header.IsNil() && header.CanSet() {
          header.Set(reflect.ValueOf(t.defReqHeader())) } }
  if req.(HeaderInterface).GetHeader().GetLogid() == "" {
      req.(HeaderInterface).GetHeader().Logid = utils.GenLogId() }
  \<close>
\<close>

definition setReqHeader :: "Env \<Rightarrow> ('a, 'b) stage" where
  "setReqHeader env s =
     (let s1 = (if Header (req s) = None
                then s\<lparr>req := (req s)\<lparr>Header := Some (defReqHeader env (logids s))\<rparr>,
                       logids := Suc (logids s)\<rparr>
                else s)
      in if GetLogid (Header (req s1)) = []
         then (case Header (req s1) of
                 None \<Rightarrow> (s1, Some ''invalid memory address or nil pointer dereference'')
               | Some h \<Rightarrow>
                   (s1\<lparr>req := (req s1)\<lparr>Header := Some (h\<lparr>Logid := GenLogId env (logids s1)\<rparr>)\<rparr>,
                       logids := Suc (logids s1)\<rparr>, None))
         else (s1, None))"

text \<open>
  \<^verbatim>\<open>
  reqCtx, _ := t.createReqCtx(ctx, reqHeader)
  ctx = sctx.WithReqCtx(ctx, reqCtx)
  \<close>
  The error of \<^verbatim>\<open>createReqCtx\<close> is dropped.
\<close>

definition setReqCtx :: "Env \<Rightarrow> ('a, 'b) stage" where
  "setReqCtx env s =
     (case createReqCtx env (ctx s) (Header (req s)) (logs s) of
        Panicked e \<Rightarrow> (s, Some e)
      | Value ((r, _), lg) \<Rightarrow>
          (s\<lparr>reqCtx := r, ctx := WithReqCtx (ctx s) r, logs := lg\<rparr>, None))"

text \<open>
  \<^verbatim>\<open>
  logFields = append(logFields, "from", reqHeader.GetFromNode(),
      "client_ip", reqCtx.GetClientIp(), "rpc_method", info.FullMethod)
  reqCtx.GetLog().Trace("access request", logFields...)
  \<close>
  \<^verbatim>\<open>reqCtx\<close> is an interface value: a method call on it panics when it is nil.
\<close>

definition accessLog :: "string \<Rightarrow> ('a, 'b) stage" where
  "accessLog info s =
     (case reqCtx s of
        None \<Rightarrow> (s, Some ''invalid memory address or nil pointer dereference'')
      | Some r \<Rightarrow>
          (let lf = logFields s @ [S ''from'', S (GetFromNode (Header (req s))),
                     S ''client_ip'', S (client_address r), S ''rpc_method'', S info]
           in (s\<lparr>logFields := lf, logs := logs s @ [LogTrace ''access request'' lf]\<rparr>, None)))"

text \<open>
  \<^verbatim>\<open>
  stdErr := ecom.ErrSuccess
  respRes, err = handler(ctx, req)
  if err != nil { stdErr = ecom.CastError(err) }
  \<close>
  When the handler panics the named results keep the values they had.
\<close>

definition handle :: "Env \<Rightarrow> (Context \<Rightarrow> 'a Msg \<Rightarrow> 'b HandlerResult) \<Rightarrow> ('a, 'b) stage" where
  "handle env handler s =
     (let s1 = s\<lparr>stdErr := Some (ErrSuccess env)\<rparr>
      in case handler (ctx s1) (req s1) of
           HandlerPanics e \<Rightarrow> (s1, Some e)
         | HandlerReturns r e \<Rightarrow>
             (let s2 = s1\<lparr>respRes := r, err := e\<rparr>
              in case e of
                   None \<Rightarrow> (s2, None)
                 | Some x \<Rightarrow> (s2\<lparr>stdErr := CastError env x\<rparr>, None)))"

definition genTraceId :: "Env \<Rightarrow> string" where
  "genTraceId env = GetHostName env"

text \<open>
  \<^verbatim>\<open>
  if stdErr == nil { return pb.XChainErrorEnum_UNKNOW_ERROR }
  if errCode, ok := acom.StdErrToXchainErrMap[stdErr.Code]; ok { return errCode }
  return pb.XChainErrorEnum_UNKNOW_ERROR
  \<close>
\<close>

definition convertErr :: "Env \<Rightarrow> ecom_Error option \<Rightarrow> XChainErrorEnum" where
  "convertErr env e =
     (case e of
        None \<Rightarrow> UNKNOW_ERROR
      | Some d \<Rightarrow>
          (case StdErrToXchainErrMap env (Code d) of
             Some errCode \<Rightarrow> errCode
           | None \<Rightarrow> UNKNOW_ERROR))"

text \<open>
  \<^verbatim>\<open>
  respHeader := &pb.Header{Logid: reqHeader.GetLogid(), FromNode: t.genTraceId(),
      Error: t.convertErr(stdErr)}
  header := reflect.ValueOf(respRes).Elem().FieldByName("Header")
  if header.IsValid() && header.IsNil() && header.CanSet() {
      header.Set(reflect.ValueOf(respHeader)) }
  \<close>
  \<^verbatim>\<open>reflect.ValueOf(nil)\<close> is the zero Value, and \<^verbatim>\<open>Elem\<close> panics on it.
\<close>

definition setRespHeader :: "Env \<Rightarrow> ('a, 'b) stage" where
  "setRespHeader env s =
     (let respHeader = \<lparr>Logid = GetLogid (Header (req s)), FromNode = genTraceId env,
                         Error = convertErr env (stdErr s)\<rparr>
      in case respRes s of
           None \<Rightarrow> (s, Some ''reflect: call of reflect.Value.Elem on zero Value'')
         | Some r \<Rightarrow>
             (if Header r = None
              then (s\<lparr>respRes := Some (r\<lparr>Header := Some respHeader\<rparr>)\<rparr>, None)
              else (s, None)))"

text \<open>
  \<^verbatim>\<open>
  logFields = append(logFields, "status", stdErr.Status, "err_code", stdErr.Code,
      "err_msg", stdErr.Msg, "cost_time", reqCtx.GetTimer().Print())
  reqCtx.GetLog().Info("request done", logFields...)
  \<close>
  The elapsed time is left out of the fields.
\<close>

definition endingLog :: "('a, 'b) stage" where
  "endingLog s =
     (case stdErr s of
        None \<Rightarrow> (s, Some ''invalid memory address or nil pointer dereference'')
      | Some d \<Rightarrow>
          (let lf = logFields s @ [S ''status'', I (Status d), S ''err_code'', I (Code d),
                     S ''err_msg'', S (Msg d)]
           in (s\<lparr>logFields := lf, logs := logs s @ [LogInfo ''request done'' lf]\<rparr>, None)))"

text \<open>The part of the body before the handler is called, and the whole body.\<close>

definition enter :: "Env \<Rightarrow> string \<Rightarrow> ('a, 'b) stage" where
  "enter env info = andThen (setReqHeader env) (andThen (setReqCtx env) (accessLog info))"

definition body ::
  "Env \<Rightarrow> string \<Rightarrow> (Context \<Rightarrow> 'a Msg \<Rightarrow> 'b HandlerResult) \<Rightarrow> ('a, 'b) stage" where
  "body env info handler =
     andThen (enter env info)
       (andThen (handle env handler) (andThen (setRespHeader env) endingLog))"

text \<open>
  \<^verbatim>\<open>
  defer func() {
      if e := recover(); e != nil {
          t.log.Error("Rpc server happen panic.", "error", e, "rpc_method", info.FullMethod) } }()
  \<close>
  The deferred function stops a panic of the body and writes one log line; the closure then
  returns the named results as they stand.
\<close>

definition recovered :: "string \<Rightarrow> ('a, 'b) Frame \<times> string option \<Rightarrow> ('a, 'b) Frame go" where
  "recovered info r =
     (case r of
        (s, None) \<Rightarrow> Value s
      | (s, Some e) \<Rightarrow>
          Value (s\<lparr>logs := logs s @
            [LogError ''Rpc server happen panic.'' [S ''error'', S e, S ''rpc_method'', S info]]\<rparr>))"

definition start :: "logline list \<Rightarrow> nat \<Rightarrow> Context \<Rightarrow> 'a Msg \<Rightarrow> ('a, 'b) Frame" where
  "start lg k c q =
     \<lparr>req = q, ctx = c, reqCtx = None, logFields = [], stdErr = None, respRes = None,
      err = None, logs = lg, logids = k\<rparr>"

definition UnaryInterceptor ::
  "Env \<Rightarrow> logline list \<Rightarrow> nat \<Rightarrow> Context \<Rightarrow> 'a Msg \<Rightarrow> string \<Rightarrow>
     (Context \<Rightarrow> 'a Msg \<Rightarrow> 'b HandlerResult) \<Rightarrow> ('a, 'b) Frame go" where
  "UnaryInterceptor env lg k c q info handler =
     recovered info (body env info handler (start lg k c q))"

text \<open>What the caller of the interceptor receives: \<^verbatim>\<open>return respRes, err\<close>.\<close>

definition returned :: "('a, 'b) Frame go \<Rightarrow> ('b Msg option \<times> goerror option) go" where
  "returned r = (case r of Value s \<Rightarrow> Value (respRes s, err s) | Panicked e \<Rightarrow> Panicked e)"

text \<open>A stage that leaves the request as it finds it.\<close>

definition keeps_req :: "('a, 'b) stage \<Rightarrow> bool" where
  "keeps_req f = (\<forall>s. req (fst (f s)) = req s)"

section \<open>The cache of outbound clients\<close>

text \<open>
  \<^verbatim>\<open>grpc.Dial(host, grpc.WithInsecure())\<close> is taken as a parameter: \<open>D n host\<close> is
  the error of the dial attempt made after \<open>n\<close> earlier attempts, \<open>None\<close> when it gives a
  connection. A connection, and the client \<^verbatim>\<open>pb.NewXendorserClient\<close> wraps around it,
  is named by the number of the attempt that made it.
\<close>

type_synonym dialer = "nat \<Rightarrow> string \<Rightarrow> goerror option"

text \<open>
  What the callers of \<^verbatim>\<open>getClient\<close> share: the map \<^verbatim>\<open>clientCache\<close>, the mutex
  (\<open>True\<close> when locked), and the dial attempts made so far, each with its host and whether
  it gave a connection.
\<close>

record CacheState =
  clientCache :: "string \<Rightarrow> nat option"
  mutex :: bool
  dials :: "(string \<times> bool) list"

text \<open>
  Where a task running \<^verbatim>\<open>getClient(host)\<close> stands. Each position is one access to the
  shared state:
  \<^verbatim>\<open>
  AtEntry     if host == "" { return nil, fmt.Errorf("empty host") }
  AtFastLoad  if c, ok := t.clientCache.Load(host); ok { return c.(pb.XendorserClient), nil }
  AtLock      t.mutex.Lock(); defer t.mutex.Unlock()
  AtRecheck   if c, ok := t.clientCache.Load(host); ok { return c.(pb.XendorserClient), nil }
  AtDial      conn, err := grpc.Dial(host, grpc.WithInsecure()); if err != nil { return nil, err }
  AtStore c   c := pb.NewXendorserClient(conn); t.clientCache.Store(host, c); return c, nil
  AtUnlock r  the deferred t.mutex.Unlock(), on the way out with the results r
  Returned r  the call has returned r
  \<close>
\<close>

datatype pc =
  AtEntry
| AtFastLoad
| AtLock
| AtRecheck
| AtDial
| AtStore nat
| AtUnlock "goerror + nat"
| Returned "goerror + nat"

record task =
  host :: string
  pc :: pc

text \<open>
  One step of a task on the shared state. A task at \<open>AtLock\<close> while the mutex is held, and
  a task that has returned, do not move.
\<close>

definition taskStep :: "dialer \<Rightarrow> task \<Rightarrow> CacheState \<Rightarrow> task \<times> CacheState" where
  "taskStep D t cs =
     (case pc t of
        AtEntry \<Rightarrow>
          (if host t = [] then (t\<lparr>pc := Returned (Inl (Errorf ''empty host''))\<rparr>, cs)
           else (t\<lparr>pc := AtFastLoad\<rparr>, cs))
      | AtFastLoad \<Rightarrow>
          (case clientCache cs (host t) of
             Some c \<Rightarrow> (t\<lparr>pc := Returned (Inr c)\<rparr>, cs)
           | None \<Rightarrow> (t\<lparr>pc := AtLock\<rparr>, cs))
      | AtLock \<Rightarrow>
          (if mutex cs then (t, cs) else (t\<lparr>pc := AtRecheck\<rparr>, cs\<lparr>mutex := True\<rparr>))
      | AtRecheck \<Rightarrow>
          (case clientCache cs (host t) of
             Some c \<Rightarrow> (t\<lparr>pc := AtUnlock (Inr c)\<rparr>, cs)
           | None \<Rightarrow> (t\<lparr>pc := AtDial\<rparr>, cs))
      | AtDial \<Rightarrow>
          (case D (length (dials cs)) (host t) of
             Some e \<Rightarrow>
               (t\<lparr>pc := AtUnlock (Inl e)\<rparr>, cs\<lparr>dials := dials cs @ [(host t, False)]\<rparr>)
           | None \<Rightarrow>
               (t\<lparr>pc := AtStore (length (dials cs))\<rparr>,
                cs\<lparr>dials := dials cs @ [(host t, True)]\<rparr>))
      | AtStore c \<Rightarrow>
          (t\<lparr>pc := AtUnlock (Inr c)\<rparr>,
           cs\<lparr>clientCache := (clientCache cs)(host t := Some c)\<rparr>)
      | AtUnlock r \<Rightarrow> (t\<lparr>pc := Returned r\<rparr>, cs\<lparr>mutex := False\<rparr>)
      | Returned r \<Rightarrow> (t, cs))"

text \<open>
  A call of \<^verbatim>\<open>getClient\<close> with no other task running: the task steps until it has
  returned. \<open>None\<close> when it has not returned after \<open>n\<close> steps.
\<close>

fun runTask :: "dialer \<Rightarrow> nat \<Rightarrow> task \<Rightarrow> CacheState \<Rightarrow> ((goerror + nat) \<times> CacheState) option" where
  "runTask D 0 t cs = (case pc t of Returned r \<Rightarrow> Some (r, cs) | _ \<Rightarrow> None)"
| "runTask D (Suc n) t cs =
     (case pc t of
        Returned r \<Rightarrow> Some (r, cs)
      | _ \<Rightarrow> (case taskStep D t cs of (t', cs') \<Rightarrow> runTask D n t' cs'))"

definition getClient :: "dialer \<Rightarrow> string \<Rightarrow> CacheState \<Rightarrow> ((goerror + nat) \<times> CacheState) option" where
  "getClient D h cs = runTask D 7 \<lparr>host = h, pc = AtEntry\<rparr> cs"

text \<open>
  Tasks running \<^verbatim>\<open>getClient\<close> side by side on one \<^verbatim>\<open>RpcServ\<close>. A schedule is the
  list of the task numbers in the order they take their steps; every interleaving of the
  tasks is the run of some schedule.
\<close>

record sys =
  tasks :: "task list"
  shared :: CacheState

definition sysStep :: "dialer \<Rightarrow> nat \<Rightarrow> sys \<Rightarrow> sys" where
  "sysStep D i \<sigma> =
     (if i < length (tasks \<sigma>)
      then (case taskStep D (tasks \<sigma> ! i) (shared \<sigma>) of
              (t', cs') \<Rightarrow> \<lparr>tasks = (tasks \<sigma>)[i := t'], shared = cs'\<rparr>)
      else \<sigma>)"

fun run :: "dialer \<Rightarrow> nat list \<Rightarrow> sys \<Rightarrow> sys" where
  "run D [] \<sigma> = \<sigma>"
| "run D (i # sched) \<sigma> = run D sched (sysStep D i \<sigma>)"

text \<open>
  The start: the cache as found, the mutex free, no dial made, and one task at the entry of
  \<^verbatim>\<open>getClient\<close> for each host of \<open>hs\<close>.
\<close>

definition initSys :: "(string \<Rightarrow> nat option) \<Rightarrow> string list \<Rightarrow> sys" where
  "initSys cache0 hs =
     \<lparr>tasks = map (\<lambda>h. \<lparr>host = h, pc = AtEntry\<rparr>) hs,
      shared = \<lparr>clientCache = cache0, mutex = False, dials = []\<rparr>\<rparr>"

text \<open>The connections established to a host: the dial attempts to it that succeeded.\<close>

definition established :: "string \<Rightarrow> sys \<Rightarrow> nat" where
  "established h \<sigma> = length (filter (\<lambda>d. d = (h, True)) (dials (shared \<sigma>)))"

definition allReturned :: "sys \<Rightarrow> bool" where
  "allReturned \<sigma> = list_all (\<lambda>t. case pc t of Returned r \<Rightarrow> True | _ \<Rightarrow> False) (tasks \<sigma>)"

text \<open>
  The positions at which a task holds the mutex: from the lock taken to the deferred unlock.
\<close>

definition crit :: "pc \<Rightarrow> bool" where
  "crit p = (case p of AtRecheck \<Rightarrow> True | AtDial \<Rightarrow> True | AtStore c \<Rightarrow> True
             | AtUnlock r \<Rightarrow> True | _ \<Rightarrow> False)"

text \<open>
  What holds of the tasks and the mutex in every state the tasks can reach: no two tasks
  are between lock and unlock, and a task there has the mutex locked.
\<close>

definition mutexInv :: "sys \<Rightarrow> bool" where
  "mutexInv \<sigma> =
     ((\<forall>i<length (tasks \<sigma>). \<forall>j<length (tasks \<sigma>).
         crit (pc (tasks \<sigma> ! i)) \<and> crit (pc (tasks \<sigma> ! j)) \<longrightarrow> i = j) \<and>
      (\<forall>i<length (tasks \<sigma>). crit (pc (tasks \<sigma> ! i)) \<longrightarrow> mutex (shared \<sigma>)))"

text \<open>
  What holds of the dials: no host has two connections; a host with a connection is in the
  cache or is about to be stored by a task at \<open>AtStore\<close>; and a task that is about to
  dial or to store has found its host missing from the cache.
\<close>

definition dialInv :: "sys \<Rightarrow> bool" where
  "dialInv \<sigma> =
     ((\<forall>h. established h \<sigma> \<le> 1) \<and>
      (\<forall>h. (h, True) \<in> set (dials (shared \<sigma>)) \<longrightarrow>
         clientCache (shared \<sigma>) h \<noteq> None \<or>
         (\<exists>i<length (tasks \<sigma>). \<exists>c. host (tasks \<sigma> ! i) = h \<and> pc (tasks \<sigma> ! i) = AtStore c)) \<and>
      (\<forall>i<length (tasks \<sigma>).
         pc (tasks \<sigma> ! i) = AtDial \<or> (\<exists>c. pc (tasks \<sigma> ! i) = AtStore c) \<longrightarrow>
         clientCache (shared \<sigma>) (host (tasks \<sigma> ! i)) = None))"

text \<open>
  What holds of the results: an error for a non-empty host comes from a failed dial; a
  client handed out is the cache's entry for the host; a task at \<open>AtStore\<close> has dialled
  with success; an entry of the cache was there at the start or comes from a successful
  dial; and a failed dial is one the dialer refused.
\<close>

definition resultInv :: "dialer \<Rightarrow> (string \<Rightarrow> nat option) \<Rightarrow> sys \<Rightarrow> bool" where
  "resultInv D cache0 \<sigma> =
     ((\<forall>i<length (tasks \<sigma>). \<forall>e. host (tasks \<sigma> ! i) \<noteq> [] \<and>
          (pc (tasks \<sigma> ! i) = Returned (Inl e) \<or> pc (tasks \<sigma> ! i) = AtUnlock (Inl e)) \<longrightarrow>
          (host (tasks \<sigma> ! i), False) \<in> set (dials (shared \<sigma>))) \<and>
      (\<forall>i<length (tasks \<sigma>). \<forall>c.
          pc (tasks \<sigma> ! i) = Returned (Inr c) \<or> pc (tasks \<sigma> ! i) = AtUnlock (Inr c) \<longrightarrow>
          clientCache (shared \<sigma>) (host (tasks \<sigma> ! i)) = Some c) \<and>
      (\<forall>i<length (tasks \<sigma>). \<forall>c. pc (tasks \<sigma> ! i) = AtStore c \<longrightarrow>
          (host (tasks \<sigma> ! i), True) \<in> set (dials (shared \<sigma>))) \<and>
      (\<forall>h. clientCache (shared \<sigma>) h \<noteq> None \<longrightarrow>
          cache0 h \<noteq> None \<or> (h, True) \<in> set (dials (shared \<sigma>))) \<and>
      (\<forall>h. (h, False) \<in> set (dials (shared \<sigma>)) \<longrightarrow> (\<exists>n. D n h \<noteq> None)))"

definition cacheInv :: "dialer \<Rightarrow> (string \<Rightarrow> nat option) \<Rightarrow> sys \<Rightarrow> bool" where
  "cacheInv D cache0 \<sigma> = (mutexInv \<sigma> \<and> dialInv \<sigma> \<and> resultInv D cache0 \<sigma>)"

text \<open>While the mutex is locked, some task is between lock and unlock.\<close>

definition holderInv :: "sys \<Rightarrow> bool" where
  "holderInv \<sigma> =
     (mutex (shared \<sigma>) \<longrightarrow> (\<exists>i<length (tasks \<sigma>). crit (pc (tasks \<sigma> ! i))))"

text \<open>
  The steps a task can still take, at most, from a position, and their sum over the tasks.
\<close>

definition rank :: "pc \<Rightarrow> nat" where
  "rank p = (case p of AtEntry \<Rightarrow> 7 | AtFastLoad \<Rightarrow> 6 | AtLock \<Rightarrow> 5 | AtRecheck \<Rightarrow> 4
             | AtDial \<Rightarrow> 3 | AtStore c \<Rightarrow> 2 | AtUnlock r \<Rightarrow> 1 | Returned r \<Rightarrow> 0)"

definition remaining :: "sys \<Rightarrow> nat" where
  "remaining \<sigma> = sum_list (map (\<lambda>t. rank (pc t)) (tasks \<sigma>))"

text \<open>Task \<open>i\<close> can move: its next step takes it to another position.\<close>

definition moves :: "dialer \<Rightarrow> sys \<Rightarrow> nat \<Rightarrow> bool" where
  "moves D \<sigma> i =
     (i < length (tasks \<sigma>) \<and>
      pc (fst (taskStep D (tasks \<sigma> ! i) (shared \<sigma>))) \<noteq> pc (tasks \<sigma> ! i))"

text \<open>
  Letting the tasks run on: at each of \<open>n\<close> steps the first task that can move takes its
  step, until none can.
\<close>

fun finish :: "dialer \<Rightarrow> nat \<Rightarrow> sys \<Rightarrow> sys" where
  "finish D 0 \<sigma> = \<sigma>"
| "finish D (Suc n) \<sigma> =
     (case find (moves D \<sigma>) [0..<length (tasks \<sigma>)] of
        None \<Rightarrow> \<sigma>
      | Some i \<Rightarrow> finish D n (sysStep D i \<sigma>))"

section \<open>The lifecycle orchestrator\<close>

text \<open>
  \<^verbatim>\<open>StartupXuperos\<close> after both subsystems are built:
  \<^verbatim>\<open>
  wg := &sync.WaitGroup{}; wg.Add(2)
  engChan := runEngine(engine); servChan := runServ(serv)
  sigChan := make(chan os.Signal); signal.Notify(sigChan, ...)
  go func() { for { select {
      case <-engChan: serv.Exit(); wg.Done()
      case <-rpcChan: engine.Exit(); wg.Done()
      case <-sigChan: serv.Exit(); engine.Exit() } } }()
  wg.Wait(); return nil
  \<close>
  The select names \<^verbatim>\<open>rpcChan\<close>, which the function does not bind; \<^verbatim>\<open>servChan\<close>, the
  channel \<^verbatim>\<open>runServ\<close> returns, is read nowhere. The state keeps the two apart:
  \<^item> \<open>engRunning\<close>, \<open>servRunning\<close>: \<^verbatim>\<open>engine.Start()\<close>, \<^verbatim>\<open>servMG.Run()\<close> has not returned;
  \<^item> \<open>engChan\<close>, \<open>servChan\<close>: the goroutine of \<^verbatim>\<open>runEngine\<close>, \<^verbatim>\<open>runServ\<close> stands at its
    send \<^verbatim>\<open>exitCh <- ...\<close> (the channels have no buffer);
  \<^item> \<open>rpcChan\<close>: the number of sends standing on \<^verbatim>\<open>rpcChan\<close>; nothing in the sources
    sends on it, so no action adds one;
  \<^item> \<open>servExits\<close>, \<open>engExits\<close>: the calls of \<^verbatim>\<open>serv.Exit()\<close> and \<^verbatim>\<open>engine.Exit()\<close> made;
  \<^item> \<open>wg\<close>: the counter of the WaitGroup; \<open>crashed\<close>: \<^verbatim>\<open>wg.Done()\<close> took it below zero,
    which panics.
\<close>

record Orch =
  engRunning :: bool
  servRunning :: bool
  engChan :: bool
  servChan :: bool
  rpcChan :: nat
  servExits :: nat
  engExits :: nat
  wg :: int
  crashed :: bool

text \<open>
  What can happen next: a subsystem's start routine returns, or the select takes one of its
  three cases (a termination signal is taken as it arrives: \<^verbatim>\<open>sigChan\<close> has no buffer).
\<close>

datatype action =
  EngineStartReturns
| ServRunReturns
| SelectEngChan
| SelectRpcChan
| SelectSigChan

definition wgDone :: "Orch \<Rightarrow> Orch" where
  "wgDone s = (if wg s - 1 < 0 then s\<lparr>wg := wg s - 1, crashed := True\<rparr> else s\<lparr>wg := wg s - 1\<rparr>)"

text \<open>One action; \<open>None\<close> when it cannot happen in the state.\<close>

definition step :: "action \<Rightarrow> Orch \<Rightarrow> Orch option" where
  "step a s =
     (if crashed s then None
      else case a of
        EngineStartReturns \<Rightarrow>
          (if engRunning s then Some (s\<lparr>engRunning := False, engChan := True\<rparr>) else None)
      | ServRunReturns \<Rightarrow>
          (if servRunning s then Some (s\<lparr>servRunning := False, servChan := True\<rparr>) else None)
      | SelectEngChan \<Rightarrow>
          (if engChan s
           then Some (wgDone (s\<lparr>engChan := False, servExits := Suc (servExits s)\<rparr>))
           else None)
      | SelectRpcChan \<Rightarrow>
          (if 0 < rpcChan s
           then Some (wgDone (s\<lparr>rpcChan := rpcChan s - 1, engExits := Suc (engExits s)\<rparr>))
           else None)
      | SelectSigChan \<Rightarrow>
          Some (s\<lparr>servExits := Suc (servExits s), engExits := Suc (engExits s)\<rparr>))"

fun exec :: "action list \<Rightarrow> Orch \<Rightarrow> Orch option" where
  "exec [] s = Some s"
| "exec (a # as) s = (case step a s of None \<Rightarrow> None | Some s' \<Rightarrow> exec as s')"

text \<open>After \<^verbatim>\<open>wg.Add(2)\<close>, \<^verbatim>\<open>runEngine\<close> and \<^verbatim>\<open>runServ\<close>.\<close>

definition started :: Orch where
  "started =
     \<lparr>engRunning = True, servRunning = True, engChan = False, servChan = False, rpcChan = 0,
      servExits = 0, engExits = 0, wg = 2, crashed = False\<rparr>"

text \<open>\<^verbatim>\<open>wg.Wait()\<close> lets \<^verbatim>\<open>StartupXuperos\<close> return once the counter is zero.\<close>

definition waitReturns :: "Orch \<Rightarrow> bool" where
  "waitReturns s = (wg s = 0 \<and> \<not> crashed s)"

text \<open>
  Neither channel case of the select can be taken: the coordinating goroutine waits, and
  only a termination signal wakes it.
\<close>

definition selectBlocked :: "Orch \<Rightarrow> bool" where
  "selectBlocked s = (step SelectEngChan s = None \<and> step SelectRpcChan s = None)"

section \<open>Sample inputs\<close>

definition sampleEnv :: Env where
  "sampleEnv =
     \<lparr>ErrSuccess = \<lparr>Status = 200, Code = 0, Msg = ''success''\<rparr>,
      CastError = (\<lambda>e. case e of
                     StdError d \<Rightarrow> Some d
                   | Errorf m \<Rightarrow> Some \<lparr>Status = 500, Code = 1, Msg = m\<rparr>),
      StdErrToXchainErrMap = (\<lambda>n. if n = 0 then Some SUCCESS
                                   else if n = 2 then Some (WireCode 7) else None),
      GetHostName = ''node1'',
      GenLogId = (\<lambda>n. ''id''),
      NewReqCtxErr = None\<rparr>"

definition sampleCtx :: Context where
  "sampleCtx = \<lparr>peer = Some \<lparr>Addr = Some ''[::1]:50051''\<rparr>, ctxReqCtx = None\<rparr>"

definition sampleReq :: "string Msg" where
  "sampleReq = \<lparr>Header = None, payload = ''tx''\<rparr>"

text \<open>The frame in which the handler is called for the sample request.\<close>

definition sampleEntered :: "(string, string) Frame" where
  "sampleEntered =
     \<lparr>req = \<lparr>Header = Some \<lparr>Logid = ''id'', FromNode = [], Error = UNKNOW_ERROR\<rparr>,
             payload = ''tx''\<rparr>,
      ctx = \<lparr>peer = Some \<lparr>Addr = Some ''[::1]:50051''\<rparr>,
             ctxReqCtx = Some \<lparr>client_address = ''['', correlation_id = ''id''\<rparr>\<rparr>,
      reqCtx = Some \<lparr>client_address = ''['', correlation_id = ''id''\<rparr>,
      logFields = [S ''from'', S [], S ''client_ip'', S ''['', S ''rpc_method'', S ''call''],
      stdErr = None, respRes = None, err = None,
      logs = [LogTrace ''access request''
                [S ''from'', S [], S ''client_ip'', S ''['', S ''rpc_method'', S ''call'']],
      logids = 1\<rparr>"

text \<open>
  Two tasks asking for the same host: both miss the cache and reach the lock, task 0 takes
  it, dials and stores while task 1 waits, then task 1 takes the lock and finds the entry.
\<close>

definition sampleSched :: "nat list" where
  "sampleSched = [0, Suc 0, 0, Suc 0, 0, Suc 0, 0, 0, 0, 0, Suc 0, Suc 0, Suc 0]"

definition dialOk :: dialer where
  "dialOk n h = None"

definition dialRefused :: dialer where
  "dialRefused n h = Some (Errorf ''connection refused'')"

definition emptyCache :: CacheState where
  "emptyCache = \<lparr>clientCache = (\<lambda>h. None), mutex = False, dials = []\<rparr>"

section \<open>Properties of the interceptor\<close>

subsection \<open>Stages in sequence\<close>

lemma andThen_ok: "f s = (s', None) \<Longrightarrow> andThen f g s = g s'"
  by (simp add: andThen_def)

lemma andThen_assoc: "andThen (andThen f g) h = andThen f (andThen g h)"
  by (rule ext) (simp add: andThen_def split: prod.splits option.splits)

lemma body_stages:
  "body env info handler =
     andThen (setReqHeader env) (andThen (setReqCtx env) (andThen (accessLog info)
       (andThen (handle env handler) (andThen (setRespHeader env) endingLog))))"
  by (simp add: body_def enter_def andThen_assoc)

lemma body_entered:
  "enter env info s = (s1, None) \<Longrightarrow>
   body env info handler s =
     andThen (handle env handler) (andThen (setRespHeader env) endingLog) s1"
  unfolding body_def by (rule andThen_ok)

lemma UnaryInterceptor_Value: "\<exists>s. UnaryInterceptor env lg k c q info handler = Value s"
  by (simp add: UnaryInterceptor_def recovered_def split: prod.splits option.splits)

subsection \<open>The request envelope\<close>

lemma setReqHeader_None:
  "Header (req s) = None \<Longrightarrow>
   setReqHeader env s =
     (s\<lparr>req := (req s)\<lparr>Header := Some
              \<lparr>Logid = (if GenLogId env (logids s) = [] then GenLogId env (Suc (logids s))
                        else GenLogId env (logids s)),
               FromNode = [], Error = UNKNOW_ERROR\<rparr>\<rparr>,
        logids := (if GenLogId env (logids s) = [] then Suc (Suc (logids s))
                   else Suc (logids s))\<rparr>, None)"
  by (simp add: setReqHeader_def defReqHeader_def GetLogid_def Let_def)

lemma setReqHeader_Some:
  "Header (req s) = Some h \<Longrightarrow>
   setReqHeader env s =
     (if Logid h = []
      then s\<lparr>req := (req s)\<lparr>Header := Some (h\<lparr>Logid := GenLogId env (logids s)\<rparr>)\<rparr>,
             logids := Suc (logids s)\<rparr>
      else s, None)"
  by (simp add: setReqHeader_def defReqHeader_def GetLogid_def Let_def)

lemma req_setReqHeader:
  "req (fst (setReqHeader env s)) =
     (case Header (req s) of
        None \<Rightarrow> (req s)\<lparr>Header := Some
                  \<lparr>Logid = (if GenLogId env (logids s) = [] then GenLogId env (Suc (logids s))
                            else GenLogId env (logids s)),
                   FromNode = [], Error = UNKNOW_ERROR\<rparr>\<rparr>
      | Some h \<Rightarrow>
          if Logid h = []
          then (req s)\<lparr>Header := Some (h\<lparr>Logid := GenLogId env (logids s)\<rparr>)\<rparr>
          else req s)"
  by (cases "Header (req s)") (simp_all add: setReqHeader_None setReqHeader_Some)

text \<open>The first stage never panics and writes the request and the id counter only.\<close>

lemma setReqHeader_shape:
  "\<exists>R N. setReqHeader env s = (s\<lparr>req := R, logids := N\<rparr>, None)"
proof (cases "Header (req s)")
  case None
  show ?thesis unfolding setReqHeader_None [OF None] by blast
next
  case (Some h)
  show ?thesis
  proof (cases "Logid h = []")
    case True
    then show ?thesis unfolding setReqHeader_Some [OF Some] by auto
  next
    case False
    show ?thesis unfolding setReqHeader_Some [OF Some] using False
      by (intro exI [of _ "req s"] exI [of _ "logids s"]) simp
  qed
qed

text \<open>No stage after the first writes the request.\<close>

lemma keeps_req_andThen:
  assumes "keeps_req f" and "keeps_req g"
  shows "keeps_req (andThen f g)"
  unfolding keeps_req_def
proof
  fix s
  obtain s' p where f: "f s = (s', p)" by (cases "f s")
  have 1: "req s' = req s" using assms(1) f unfolding keeps_req_def by (metis fst_conv)
  show "req (fst (andThen f g s)) = req s"
  proof (cases p)
    case None
    then show ?thesis using f 1 assms(2) by (simp add: andThen_def keeps_req_def)
  next
    case (Some e)
    then show ?thesis using f 1 by (simp add: andThen_def)
  qed
qed

lemma keeps_req_stages:
  "keeps_req (setReqCtx env)" "keeps_req (accessLog info)" "keeps_req (handle env handler)"
  "keeps_req (setRespHeader env)" "keeps_req endingLog"
  unfolding keeps_req_def
  by (simp_all add: setReqCtx_def accessLog_def handle_def setRespHeader_def endingLog_def Let_def
        split: go.splits prod.splits option.splits HandlerResult.splits)

lemma req_after_first: "keeps_req g \<Longrightarrow> req (fst (andThen f g s)) = req (fst (f s))"
  unfolding keeps_req_def andThen_def
  by (auto split: prod.splits option.splits)

lemma req_body: "req (fst (body env info handler s)) = req (fst (setReqHeader env s))"
  unfolding body_stages
  by (intro req_after_first keeps_req_andThen keeps_req_stages)

lemma req_recovered: "recovered info r = Value s \<Longrightarrow> req s = req (fst r)"
  by (auto simp: recovered_def split: prod.splits option.splits)

lemma req_UnaryInterceptor:
  "\<exists>s. UnaryInterceptor env lg k c q info handler = Value s \<and>
       req s =
         (case Header q of
            None \<Rightarrow> q\<lparr>Header := Some
                      \<lparr>Logid = (if GenLogId env k = [] then GenLogId env (Suc k)
                                else GenLogId env k),
                       FromNode = [], Error = UNKNOW_ERROR\<rparr>\<rparr>
          | Some h \<Rightarrow>
              if Logid h = [] then q\<lparr>Header := Some (h\<lparr>Logid := GenLogId env k\<rparr>)\<rparr> else q)"
proof -
  obtain s where s: "UnaryInterceptor env lg k c q info handler = Value s"
    using UnaryInterceptor_Value by blast
  then have "req s = req (fst (body env info handler (start lg k c q)))"
    unfolding UnaryInterceptor_def by (rule req_recovered)
  then have "req s = req (fst (setReqHeader env (start lg k c q :: ('a, 'b) Frame)))"
    by (simp add: req_body)
  with s show ?thesis by (simp add: req_setReqHeader start_def split: option.splits)
qed

text \<open>
  C6. A request without an envelope leaves the interceptor with one: its correlation id is
  the id \<^verbatim>\<open>utils.GenLogId\<close> generated during this call (the second one when the first was
  empty), its origin is empty and its status is \<^verbatim>\<open>UNKNOW_ERROR\<close>; the id is not empty when
  the generator returns no empty id. This holds whatever the peer and the handler do.
\<close>

theorem envelope_synthesized:
  assumes "Header q = None"
  shows "\<exists>s. UnaryInterceptor env lg k c q info handler = Value s \<and>
           req s = q\<lparr>Header := Some
                     \<lparr>Logid = (if GenLogId env k = [] then GenLogId env (Suc k)
                               else GenLogId env k),
                      FromNode = [], Error = UNKNOW_ERROR\<rparr>\<rparr> \<and>
           ((\<forall>n. GenLogId env n \<noteq> []) \<longrightarrow>
              GetLogid (Header (req s)) = GenLogId env k \<and> GetLogid (Header (req s)) \<noteq> [])"
  using req_UnaryInterceptor [of env lg k c q info handler] assms
  by (auto simp: GetLogid_def)

theorem envelope_synthesized_witness:
  "Header sampleReq = None \<and> (\<forall>n. GenLogId sampleEnv n \<noteq> []) \<and>
   (\<exists>s. UnaryInterceptor sampleEnv [] 0 sampleCtx sampleReq ''call''
          (\<lambda>c q. HandlerPanics ''boom'' :: string HandlerResult) = Value s \<and>
        Header (req s) = Some \<lparr>Logid = ''id'', FromNode = [], Error = UNKNOW_ERROR\<rparr> \<and>
        GetLogid (Header (req s)) \<noteq> [])"
  using envelope_synthesized [of sampleReq sampleEnv "[]" 0 sampleCtx "''call''"
      "\<lambda>c q. HandlerPanics ''boom'' :: string HandlerResult"]
  by (auto simp: sampleReq_def sampleEnv_def)

text \<open>
  C8. A request whose envelope has an empty correlation id leaves the interceptor with the
  id filled in; the other fields of the envelope and the rest of the request are as they
  were.
\<close>

theorem logid_filled_in_place:
  assumes "Header q = Some h" and "Logid h = []"
  shows "\<exists>s. UnaryInterceptor env lg k c q info handler = Value s \<and>
           req s = q\<lparr>Header := Some (h\<lparr>Logid := GenLogId env k\<rparr>)\<rparr>"
  using req_UnaryInterceptor [of env lg k c q info handler] assms by auto

theorem logid_filled_in_place_witness:
  "\<exists>s. UnaryInterceptor sampleEnv [] 0 sampleCtx
          \<lparr>Header = Some \<lparr>Logid = [], FromNode = ''gateway'', Error = WireCode 3\<rparr>,
           payload = ''tx''\<rparr> ''call''
          (\<lambda>c q. HandlerPanics ''boom'' :: string HandlerResult) = Value s \<and>
        req s = \<lparr>Header = Some \<lparr>Logid = ''id'', FromNode = ''gateway'', Error = WireCode 3\<rparr>,
                 payload = ''tx''\<rparr>"
  using logid_filled_in_place [of
      "\<lparr>Header = Some \<lparr>Logid = [], FromNode = ''gateway'', Error = WireCode 3\<rparr>, payload = ''tx''\<rparr>"
      "\<lparr>Logid = [], FromNode = ''gateway'', Error = WireCode 3\<rparr>"
      sampleEnv "[]" 0 sampleCtx "''call''"
      "\<lambda>c q. HandlerPanics ''boom'' :: string HandlerResult"]
  by (simp add: sampleEnv_def)

subsection \<open>The client address\<close>

lemma Split_first: "\<exists>xs. Split s sep = takeWhile (\<lambda>c. c \<noteq> sep) s # xs"
  by (induction s) auto

lemma getClietIP_addr:
  "peer gctx = Some pr \<Longrightarrow> Addr pr = Some a \<Longrightarrow>
   getClietIP gctx = Value (takeWhile (\<lambda>c. c \<noteq> CHR '':'') a, None)"
  using Split_first [of a "CHR '':''"] by (auto simp: getClietIP_def)

lemma createReqCtx_no_peer:
  "peer gctx = None \<or> (\<exists>pr. peer gctx = Some pr \<and> Addr pr = None) \<Longrightarrow>
   createReqCtx env gctx h lg =
     Value ((None, Some (Errorf ''get client ip failed'')),
            lg @ [LogError ''access proc failed because get client ip failed'' []])"
  by (auto simp: createReqCtx_def getClietIP_def)

lemma createReqCtx_peer:
  "peer gctx = Some pr \<Longrightarrow> Addr pr = Some a \<Longrightarrow> NewReqCtxErr env = None \<Longrightarrow>
   createReqCtx env gctx h lg =
     Value ((Some \<lparr>client_address = takeWhile (\<lambda>ch. ch \<noteq> CHR '':'') a,
                    correlation_id = GetLogid h\<rparr>, None), lg)"
  by (simp add: createReqCtx_def getClietIP_addr NewReqCtx_def)

lemma enter_peer:
  assumes "peer (ctx s) = Some pr" and "Addr pr = Some a" and "NewReqCtxErr env = None"
  shows "\<exists>s1 r. enter env info s = (s1, None) \<and> reqCtx s1 = Some r \<and>
           ctxReqCtx (ctx s1) = Some r \<and>
           client_address r = takeWhile (\<lambda>ch. ch \<noteq> CHR '':'') a \<and>
           correlation_id r = GetLogid (Header (req s1))"
proof -
  obtain R N where 1: "setReqHeader env s = (s\<lparr>req := R, logids := N\<rparr>, None)"
    using setReqHeader_shape by blast
  show ?thesis
    unfolding enter_def
    by (simp add: andThen_def 1 setReqCtx_def createReqCtx_peer [OF assms] accessLog_def
          WithReqCtx_def Let_def)
qed

lemma rest_keeps_reqCtx:
  assumes "andThen (handle env handler) (andThen (setRespHeader env) endingLog) s = (s', p)"
  shows "reqCtx s' = reqCtx s \<and> ctxReqCtx (ctx s') = ctxReqCtx (ctx s)"
proof -
  obtain s2 p2 where 2: "handle env handler s = (s2, p2)" by (cases "handle env handler s")
  then have k2: "reqCtx s2 = reqCtx s \<and> ctx s2 = ctx s"
    by (auto simp: handle_def Let_def split: HandlerResult.splits option.splits)
  obtain s3 p3 where 3: "setRespHeader env s2 = (s3, p3)" by (cases "setRespHeader env s2")
  then have k3: "reqCtx s3 = reqCtx s2 \<and> ctx s3 = ctx s2"
    by (auto simp: setRespHeader_def Let_def split: option.splits if_splits)
  obtain s4 p4 where 4: "endingLog s3 = (s4, p4)" by (cases "endingLog s3")
  then have k4: "reqCtx s4 = reqCtx s3 \<and> ctx s4 = ctx s3"
    by (auto simp: endingLog_def Let_def split: option.splits)
  show ?thesis
    using assms k2 k3 k4 by (cases p2; cases p3) (auto simp: andThen_def 2 3 4)
qed

lemma recovered_keeps:
  "recovered info (s, p) = Value s' \<Longrightarrow> reqCtx s' = reqCtx s \<and> ctx s' = ctx s"
  by (cases p) (auto simp: recovered_def)

text \<open>
  C10. With a peer that has an address, \<^verbatim>\<open>getClietIP\<close> returns the part of the address
  string before its first colon (all of it when it has none), and that is the client
  address of the request context the interceptor creates. For an IPv6 peer such as
  \<^verbatim>\<open>[::1]:50051\<close> the part before the first colon is \<^verbatim>\<open>[\<close>.
\<close>

theorem client_address_prefix:
  fixes handler :: "Context \<Rightarrow> 'a Msg \<Rightarrow> 'b HandlerResult"
  assumes "peer c = Some pr" and "Addr pr = Some a"
  shows "getClietIP c = Value (takeWhile (\<lambda>ch. ch \<noteq> CHR '':'') a, None) \<and>
         (NewReqCtxErr env = None \<longrightarrow>
            (\<exists>s r. UnaryInterceptor env lg k c q info handler = Value s \<and>
                   reqCtx s = Some r \<and> ctxReqCtx (ctx s) = Some r \<and>
                   client_address r = takeWhile (\<lambda>ch. ch \<noteq> CHR '':'') a))"
proof (intro conjI impI)
  show "getClietIP c = Value (takeWhile (\<lambda>ch. ch \<noteq> CHR '':'') a, None)"
    using assms by (rule getClietIP_addr)
next
  assume ok: "NewReqCtxErr env = None"
  have "peer (ctx (start lg k c q :: ('a, 'b) Frame)) = Some pr" using assms(1) by (simp add: start_def)
  from enter_peer [OF this assms(2) ok, of info]
  obtain s1 :: "('a, 'b) Frame" and r where e: "enter env info (start lg k c q) = (s1, None)"
    "reqCtx s1 = Some r" "ctxReqCtx (ctx s1) = Some r"
    "client_address r = takeWhile (\<lambda>ch. ch \<noteq> CHR '':'') a"
    by blast
  obtain s2 p where b: "andThen (handle env handler) (andThen (setRespHeader env) endingLog) s1 = (s2, p)"
    by (cases "andThen (handle env handler) (andThen (setRespHeader env) endingLog) s1")
  obtain s where s: "UnaryInterceptor env lg k c q info handler = Value s"
    using UnaryInterceptor_Value by blast
  then have "recovered info (s2, p) = Value s"
    by (simp add: UnaryInterceptor_def body_entered [OF e(1)] b)
  from recovered_keeps [OF this] rest_keeps_reqCtx [OF b] e s
  show "\<exists>s r. UnaryInterceptor env lg k c q info handler = Value s \<and>
                   reqCtx s = Some r \<and> ctxReqCtx (ctx s) = Some r \<and>
                   client_address r = takeWhile (\<lambda>ch. ch \<noteq> CHR '':'') a"
    by auto
qed

theorem client_address_prefix_witness:
  "peer sampleCtx = Some \<lparr>Addr = Some ''[::1]:50051''\<rparr> \<and>
   getClietIP sampleCtx = Value (''['', None) \<and>
   NewReqCtxErr sampleEnv = None \<and>
   (\<exists>s r. UnaryInterceptor sampleEnv [] 0 sampleCtx sampleReq ''call''
          (\<lambda>c q. HandlerPanics ''boom'' :: string HandlerResult) = Value s \<and>
          reqCtx s = Some r \<and> client_address r = ''['')"
  using client_address_prefix [of sampleCtx "\<lparr>Addr = Some ''[::1]:50051''\<rparr>" "''[::1]:50051''" sampleEnv "[]" 0
      sampleReq "''call''" "\<lambda>c q. HandlerPanics ''boom'' :: string HandlerResult"]
  by (auto simp: sampleCtx_def sampleEnv_def)

subsection \<open>A call without peer address\<close>

lemma enter_no_peer:
  assumes "peer (ctx s) = None \<or> (\<exists>pr. peer (ctx s) = Some pr \<and> Addr pr = None)"
  shows "\<exists>s' e. enter env info s = (s', Some e) \<and> respRes s' = respRes s \<and> err s' = err s"
proof -
  obtain R N where 1: "setReqHeader env s = (s\<lparr>req := R, logids := N\<rparr>, None)"
    using setReqHeader_shape by blast
  show ?thesis
    unfolding enter_def
    by (simp add: andThen_def 1 setReqCtx_def createReqCtx_no_peer [OF assms] accessLog_def)
qed

lemma no_peer_returns_nil:
  fixes handler :: "Context \<Rightarrow> 'a Msg \<Rightarrow> 'b HandlerResult"
  assumes "peer c = None \<or> (\<exists>pr. peer c = Some pr \<and> Addr pr = None)"
  shows "returned (UnaryInterceptor env lg k c q info handler) = Value (None, None)"
proof -
  have "peer (ctx (start lg k c q :: ('a, 'b) Frame)) = None \<or>
     (\<exists>pr. peer (ctx (start lg k c q :: ('a, 'b) Frame)) = Some pr \<and> Addr pr = None)"
    using assms by (simp add: start_def)
  from enter_no_peer [OF this, of env info]
  obtain s :: "('a, 'b) Frame" and e where 1: "enter env info (start lg k c q) = (s, Some e)"
    "respRes s = None" "err s = None"
    by (auto simp: start_def)
  show ?thesis
    unfolding UnaryInterceptor_def body_def
    by (simp add: andThen_def recovered_def returned_def 1)
qed

lemma enter_keeps:
  assumes "enter env info s = (s', p)"
  shows "respRes s' = respRes s \<and> err s' = err s"
proof -
  obtain R N where 1: "setReqHeader env s = (s\<lparr>req := R, logids := N\<rparr>, None)"
    using setReqHeader_shape by blast
  obtain s2 p2 where 2: "setReqCtx env (s\<lparr>req := R, logids := N\<rparr>) = (s2, p2)"
    by (cases "setReqCtx env (s\<lparr>req := R, logids := N\<rparr>)")
  then have k2: "respRes s2 = respRes s \<and> err s2 = err s"
    by (auto simp: setReqCtx_def split: go.splits prod.splits)
  obtain s3 p3 where 3: "accessLog info s2 = (s3, p3)"
    by (cases "accessLog info s2")
  then have k3: "respRes s3 = respRes s2 \<and> err s3 = err s2"
    by (auto simp: accessLog_def Let_def split: option.splits)
  show ?thesis
  proof (cases p2)
    case None
    then show ?thesis using assms k2 k3 by (simp add: enter_def andThen_def 1 2 3)
  next
    case (Some e)
    then show ?thesis using assms k2 by (simp add: enter_def andThen_def 1 2)
  qed
qed

lemmas interceptor_defs =
  UnaryInterceptor_def recovered_def returned_def body_def enter_def andThen_def start_def
  setReqHeader_def defReqHeader_def setReqCtx_def createReqCtx_def getClietIP_def NewReqCtx_def
  WithReqCtx_def accessLog_def handle_def setRespHeader_def endingLog_def convertErr_def
  genTraceId_def GetLogid_def GetFromNode_def Let_def

lemma sample_enter:
  "enter sampleEnv ''call'' (start [] 0 sampleCtx sampleReq) = (sampleEntered, None)"
  by (simp add: interceptor_defs sampleEnv_def sampleCtx_def sampleReq_def sampleEntered_def)

text \<open>
  C5. Without a peer, or with a peer without address, \<^verbatim>\<open>createReqCtx\<close> returns the error
  \<^verbatim>\<open>get client ip failed\<close> and writes it to the log. The interceptor drops that error:
  the call on the nil request context panics, the deferred function recovers, and the
  caller receives a nil response and a nil error, whatever the handler is.
\<close>

theorem context_error_dropped:
  "createReqCtx env \<lparr>peer = None, ctxReqCtx = x\<rparr> h lg =
     Value ((None, Some (Errorf ''get client ip failed'')),
            lg @ [LogError ''access proc failed because get client ip failed'' []]) \<and>
   returned (UnaryInterceptor env lg k \<lparr>peer = None, ctxReqCtx = x\<rparr> q info handler) =
     Value (None, None) \<and>
   createReqCtx env \<lparr>peer = Some \<lparr>Addr = None\<rparr>, ctxReqCtx = x\<rparr> h lg =
     Value ((None, Some (Errorf ''get client ip failed'')),
            lg @ [LogError ''access proc failed because get client ip failed'' []]) \<and>
   returned (UnaryInterceptor env lg k \<lparr>peer = Some \<lparr>Addr = None\<rparr>, ctxReqCtx = x\<rparr> q info handler) =
     Value (None, None)"
  by (simp add: createReqCtx_no_peer no_peer_returns_nil)

subsection \<open>A handler that panics\<close>

text \<open>
  C1, as the code has it. When the handler panics, the interceptor returns: the panic goes
  no further, one line is written to the error log, and the caller receives a nil response
  and a nil error. No envelope is made and no status is set.
\<close>

theorem fault_contained:
  assumes "enter env info (start lg k c q) = (s1, None)"
    and "handler (ctx s1) (req s1) = HandlerPanics e"
  shows "UnaryInterceptor env lg k c q info handler =
           Value (s1\<lparr>stdErr := Some (ErrSuccess env),
                     logs := logs s1 @ [LogError ''Rpc server happen panic.''
                                          [S ''error'', S e, S ''rpc_method'', S info]]\<rparr>) \<and>
         returned (UnaryInterceptor env lg k c q info handler) = Value (None, None)"
proof -
  have k: "respRes s1 = None" "err s1 = None"
    using enter_keeps [OF assms(1)] by (simp_all add: start_def)
  have h: "handle env handler s1 = (s1\<lparr>stdErr := Some (ErrSuccess env)\<rparr>, Some e)"
    using assms(2) by (simp add: handle_def)
  have 1: "UnaryInterceptor env lg k c q info handler =
           Value (s1\<lparr>stdErr := Some (ErrSuccess env),
                     logs := logs s1 @ [LogError ''Rpc server happen panic.''
                                          [S ''error'', S e, S ''rpc_method'', S info]]\<rparr>)"
    unfolding UnaryInterceptor_def body_entered [OF assms(1)]
    by (simp add: andThen_def h recovered_def)
  show ?thesis
    unfolding 1 by (simp add: returned_def k)
qed

theorem fault_contained_witness:
  "enter sampleEnv ''call'' (start [] 0 sampleCtx sampleReq) = (sampleEntered, None) \<and>
   UnaryInterceptor sampleEnv [] 0 sampleCtx sampleReq ''call''
      (\<lambda>c q. HandlerPanics ''boom'' :: string HandlerResult) =
     Value (sampleEntered\<lparr>stdErr := Some (ErrSuccess sampleEnv),
              logs := logs sampleEntered @ [LogError ''Rpc server happen panic.''
                        [S ''error'', S ''boom'', S ''rpc_method'', S ''call'']]\<rparr>) \<and>
   returned (UnaryInterceptor sampleEnv [] 0 sampleCtx sampleReq ''call''
      (\<lambda>c q. HandlerPanics ''boom'' :: string HandlerResult)) = Value (None, None)"
  using fault_contained [OF sample_enter, of "\<lambda>c q. HandlerPanics ''boom''" "''boom''"] sample_enter
  by blast

text \<open>
  C1 as stated asks for a response whose envelope has the status INTERNAL. At the sample
  call with a panicking handler the interceptor returns no response at all.
\<close>

theorem fault_yields_no_envelope:
  "returned (UnaryInterceptor sampleEnv [] 0 sampleCtx sampleReq ''call''
      (\<lambda>c q. HandlerPanics ''boom'' :: string HandlerResult)) = Value (None, None)"
  by (simp add: interceptor_defs sampleEnv_def sampleCtx_def sampleReq_def)

subsection \<open>The status of the response envelope\<close>

text \<open>
  C4, as the code has it. Let the status table give \<^verbatim>\<open>SUCCESS\<close> to the code of
  \<^verbatim>\<open>ecom.ErrSuccess\<close>, let the call reach the handler, and let the handler return a
  response. When the \<^verbatim>\<open>Header\<close> field of the response is nil, the interceptor returns the
  response with an envelope of its own, whose status is \<^verbatim>\<open>SUCCESS\<close> when the handler's
  error is nil, the table's entry for the code of \<^verbatim>\<open>ecom.CastError(err)\<close> when there is
  one, and \<^verbatim>\<open>UNKNOW_ERROR\<close> otherwise. When the response has an envelope already, the
  interceptor returns the response as the handler made it. The handler's error is returned
  with the response in both cases.
\<close>

theorem status_mapping:
  fixes handler :: "Context \<Rightarrow> 'a Msg \<Rightarrow> 'b HandlerResult" and s1 :: "('a, 'b) Frame"
  assumes "StdErrToXchainErrMap env (Code (ErrSuccess env)) = Some SUCCESS"
    and "enter env info (start lg k c q) = (s1, None)"
    and "handler (ctx s1) (req s1) = HandlerReturns (Some r) e"
  shows "returned (UnaryInterceptor env lg k c q info handler) =
           Value (Some (case Header r of
                    Some h \<Rightarrow> r
                  | None \<Rightarrow> r\<lparr>Header := Some
                    \<lparr>Logid = GetLogid (Header (req s1)), FromNode = GetHostName env,
                     Error = (case e of
                                None \<Rightarrow> SUCCESS
                              | Some x \<Rightarrow>
                                  (case CastError env x of
                                     None \<Rightarrow> UNKNOW_ERROR
                                   | Some d \<Rightarrow>
                                       (case StdErrToXchainErrMap env (Code d) of
                                          Some w \<Rightarrow> w
                                        | None \<Rightarrow> UNKNOW_ERROR)))\<rparr>\<rparr>), e)"
  unfolding UnaryInterceptor_def body_entered [OF assms(2)]
  using assms(1,3)
  by (cases "Header r")
     (simp_all add: andThen_def handle_def setRespHeader_def endingLog_def recovered_def
        returned_def convertErr_def genTraceId_def Let_def split: option.splits)

theorem status_mapping_witness:
  "StdErrToXchainErrMap sampleEnv (Code (ErrSuccess sampleEnv)) = Some SUCCESS \<and>
   returned (UnaryInterceptor sampleEnv [] 0 sampleCtx sampleReq ''call''
      (\<lambda>c q. HandlerReturns (Some \<lparr>Header = None, payload = ''ok''\<rparr>) None)) =
     Value (Some \<lparr>Header = Some \<lparr>Logid = ''id'', FromNode = ''node1'', Error = SUCCESS\<rparr>,
                  payload = ''ok''\<rparr>, None) \<and>
   returned (UnaryInterceptor sampleEnv [] 0 sampleCtx sampleReq ''call''
      (\<lambda>c q. HandlerReturns (Some \<lparr>Header = None, payload = ''ok''\<rparr>)
         (Some (StdError \<lparr>Status = 400, Code = 2, Msg = ''bad''\<rparr>)))) =
     Value (Some \<lparr>Header = Some \<lparr>Logid = ''id'', FromNode = ''node1'', Error = WireCode 7\<rparr>,
                  payload = ''ok''\<rparr>, Some (StdError \<lparr>Status = 400, Code = 2, Msg = ''bad''\<rparr>)) \<and>
   returned (UnaryInterceptor sampleEnv [] 0 sampleCtx sampleReq ''call''
      (\<lambda>c q. HandlerReturns (Some \<lparr>Header = None, payload = ''ok''\<rparr>)
         (Some (Errorf ''disk full'')))) =
     Value (Some \<lparr>Header = Some \<lparr>Logid = ''id'', FromNode = ''node1'', Error = UNKNOW_ERROR\<rparr>,
                  payload = ''ok''\<rparr>, Some (Errorf ''disk full'')) \<and>
   returned (UnaryInterceptor sampleEnv [] 0 sampleCtx sampleReq ''call''
      (\<lambda>c q. HandlerReturns
         (Some \<lparr>Header = Some \<lparr>Logid = ''x'', FromNode = ''peer'', Error = WireCode 9\<rparr>,
                payload = ''ok''\<rparr>) (Some (Errorf ''disk full'')))) =
     Value (Some \<lparr>Header = Some \<lparr>Logid = ''x'', FromNode = ''peer'', Error = WireCode 9\<rparr>,
                  payload = ''ok''\<rparr>, Some (Errorf ''disk full''))"
proof -
  have t: "StdErrToXchainErrMap sampleEnv (Code (ErrSuccess sampleEnv)) = Some SUCCESS"
    by (simp add: sampleEnv_def)
  show ?thesis
    using t
      status_mapping [OF t sample_enter, of "\<lambda>c q. HandlerReturns (Some \<lparr>Header = None, payload = ''ok''\<rparr>) None"
         "\<lparr>Header = None, payload = ''ok''\<rparr>" None]
      status_mapping [OF t sample_enter, of "\<lambda>c q. HandlerReturns (Some \<lparr>Header = None, payload = ''ok''\<rparr>)
         (Some (StdError \<lparr>Status = 400, Code = 2, Msg = ''bad''\<rparr>))"
         "\<lparr>Header = None, payload = ''ok''\<rparr>" "Some (StdError \<lparr>Status = 400, Code = 2, Msg = ''bad''\<rparr>)"]
      status_mapping [OF t sample_enter, of "\<lambda>c q. HandlerReturns (Some \<lparr>Header = None, payload = ''ok''\<rparr>)
         (Some (Errorf ''disk full''))" "\<lparr>Header = None, payload = ''ok''\<rparr>" "Some (Errorf ''disk full'')"]
      status_mapping [OF t sample_enter, of "\<lambda>c q. HandlerReturns
         (Some \<lparr>Header = Some \<lparr>Logid = ''x'', FromNode = ''peer'', Error = WireCode 9\<rparr>,
                payload = ''ok''\<rparr>) (Some (Errorf ''disk full''))"
         "\<lparr>Header = Some \<lparr>Logid = ''x'', FromNode = ''peer'', Error = WireCode 9\<rparr>, payload = ''ok''\<rparr>"
         "Some (Errorf ''disk full'')"]
    by (simp add: sampleEnv_def sampleEntered_def GetLogid_def)
qed

text \<open>
  C4 as stated covers every call. A response that already has an envelope keeps it: here
  the handler returns no error and a response whose envelope says \<^verbatim>\<open>UNKNOW_ERROR\<close>, and
  that is the status the caller sees, not \<^verbatim>\<open>SUCCESS\<close>.
\<close>

theorem preset_envelope_kept:
  "StdErrToXchainErrMap sampleEnv (Code (ErrSuccess sampleEnv)) = Some SUCCESS \<and>
   returned (UnaryInterceptor sampleEnv [] 0 sampleCtx sampleReq ''call''
      (\<lambda>c q. HandlerReturns
         (Some \<lparr>Header = Some \<lparr>Logid = ''x'', FromNode = ''peer'', Error = UNKNOW_ERROR\<rparr>,
                payload = ''ok''\<rparr>) None)) =
     Value (Some \<lparr>Header = Some \<lparr>Logid = ''x'', FromNode = ''peer'', Error = UNKNOW_ERROR\<rparr>,
                  payload = ''ok''\<rparr>, None)"
  by (simp add: interceptor_defs sampleEnv_def sampleCtx_def sampleReq_def)

section \<open>Properties of the client cache\<close>

subsection \<open>One step of one task\<close>

lemma sysStep_length [simp]: "length (tasks (sysStep D i \<sigma>)) = length (tasks \<sigma>)"
  by (simp add: sysStep_def split: prod.splits)

lemma mutexInv_step:
  assumes "mutexInv \<sigma>"
  shows "mutexInv (sysStep D i \<sigma>)"
proof (cases "i < length (tasks \<sigma>)")
  case False
  then show ?thesis using assms by (simp add: sysStep_def)
next
  case True
  show ?thesis
    using assms True
    unfolding mutexInv_def sysStep_def taskStep_def
    by (cases "pc (tasks \<sigma> ! i)")
       (auto simp: nth_list_update crit_def split: option.splits if_splits)
qed

lemma taskStep_host: "taskStep D t cs = (t', cs') \<Longrightarrow> host t' = host t"
  by (cases "pc t") (auto simp: taskStep_def split: option.splits if_splits)

lemma taskStep_dials: "taskStep D t cs = (t', cs') \<Longrightarrow> pc t \<noteq> AtDial \<Longrightarrow> dials cs' = dials cs"
  by (cases "pc t") (auto simp: taskStep_def split: option.splits if_splits)

lemma taskStep_cache:
  "taskStep D t cs = (t', cs') \<Longrightarrow> \<forall>c. pc t \<noteq> AtStore c \<Longrightarrow> clientCache cs' = clientCache cs"
  by (cases "pc t") (auto simp: taskStep_def split: option.splits if_splits)

lemma taskStep_to_AtStore:
  "taskStep D t cs = (t', cs') \<Longrightarrow> pc t' = AtStore c \<Longrightarrow>
   pc t = AtDial \<and> dials cs' = dials cs @ [(host t, True)]"
  by (cases "pc t") (auto simp: taskStep_def split: option.splits if_splits)

lemma taskStep_to_AtDial:
  "taskStep D t cs = (t', cs') \<Longrightarrow> pc t' = AtDial \<Longrightarrow>
   pc t = AtRecheck \<and> clientCache cs (host t) = None"
  by (cases "pc t") (auto simp: taskStep_def split: option.splits if_splits)

lemma taskStep_AtStore:
  "taskStep D t cs = (t', cs') \<Longrightarrow> pc t = AtStore c \<Longrightarrow>
   clientCache cs' = (clientCache cs)(host t := Some c) \<and> pc t' = AtUnlock (Inr c)"
  by (auto simp: taskStep_def)

lemma taskStep_AtDial:
  "taskStep D t cs = (t', cs') \<Longrightarrow> pc t = AtDial \<Longrightarrow>
   (dials cs' = dials cs @ [(host t, True)] \<and> pc t' = AtStore (length (dials cs))) \<or>
   (dials cs' = dials cs @ [(host t, False)] \<and> (\<exists>e. pc t' = AtUnlock (Inl e)))"
  by (auto simp: taskStep_def split: option.splits)

lemma dialInv_step:
  assumes m: "mutexInv \<sigma>" and d: "dialInv \<sigma>"
  shows "dialInv (sysStep D i \<sigma>)"
proof (cases "i < length (tasks \<sigma>)")
  case False
  then show ?thesis using assms by (simp add: sysStep_def)
next
  case True
  define ts where "ts = tasks \<sigma>"
  define cs where "cs = shared \<sigma>"
  define t where "t = ts ! i"
  obtain t' cs' where st: "taskStep D t cs = (t', cs')" by (cases "taskStep D t cs")
  have \<sigma>': "sysStep D i \<sigma> = \<lparr>tasks = ts[i := t'], shared = cs'\<rparr>"
    using True st by (simp add: sysStep_def ts_def cs_def t_def)
  have len: "i < length ts" using True by (simp add: ts_def)
  have uniq: "\<And>j. j < length ts \<Longrightarrow> crit (pc (ts ! j)) \<Longrightarrow> crit (pc t) \<Longrightarrow> j = i"
    using m len unfolding mutexInv_def ts_def t_def by blast
  have d1: "\<And>h. length (filter (\<lambda>x. x = (h, True)) (dials cs)) \<le> 1"
    using d unfolding dialInv_def established_def cs_def by blast
  have d2: "\<And>h. (h, True) \<in> set (dials cs) \<Longrightarrow>
      clientCache cs h \<noteq> None \<or> (\<exists>j<length ts. \<exists>c. host (ts ! j) = h \<and> pc (ts ! j) = AtStore c)"
    using d unfolding dialInv_def cs_def ts_def by blast
  have d3: "\<And>j. j < length ts \<Longrightarrow> pc (ts ! j) = AtDial \<or> (\<exists>c. pc (ts ! j) = AtStore c) \<Longrightarrow>
      clientCache cs (host (ts ! j)) = None"
    using d unfolding dialInv_def cs_def ts_def by blast
  have fresh: "(host t, True) \<notin> set (dials cs)" if "pc t = AtDial"
  proof
    assume "(host t, True) \<in> set (dials cs)"
    from d2 [OF this] d3 [OF len] that
    obtain j c where j: "j < length ts" "pc (ts ! j) = AtStore c"
      by (auto simp: t_def)
    then have "j = i" using uniq that by (simp add: crit_def)
    then show False using j that by (simp add: t_def)
  qed
  have p1: "length (filter (\<lambda>x. x = (h, True)) (dials cs')) \<le> 1" for h
  proof (cases "pc t = AtDial")
    case False
    then show ?thesis using taskStep_dials [OF st] d1 by simp
  next
    case True
    then show ?thesis
      using taskStep_AtDial [OF st True] d1 [of h] fresh
      by (auto simp: filter_empty_conv)
  qed
  have p2: "clientCache cs' h \<noteq> None \<or>
      (\<exists>j<length ts. \<exists>c. host (ts[i := t'] ! j) = h \<and> pc (ts[i := t'] ! j) = AtStore c)"
    if h: "(h, True) \<in> set (dials cs')" for h
  proof (cases "\<exists>c. pc t = AtStore c")
    case True
    then obtain c where c: "pc t = AtStore c" by blast
    have old: "(h, True) \<in> set (dials cs)" using h taskStep_dials [OF st] c by simp
    have new: "clientCache cs' = (clientCache cs)(host t := Some c)"
      using taskStep_AtStore [OF st c] by simp
    from d2 [OF old] show ?thesis
    proof
      assume "clientCache cs h \<noteq> None"
      then show ?thesis by (simp add: new)
    next
      assume "\<exists>j<length ts. \<exists>c. host (ts ! j) = h \<and> pc (ts ! j) = AtStore c"
      then obtain j c' where j: "j < length ts" "host (ts ! j) = h" "pc (ts ! j) = AtStore c'"
        by blast
      then have "j = i" using uniq c by (simp add: crit_def)
      then have "h = host t" using j by (simp add: t_def)
      then show ?thesis by (simp add: new)
    qed
  next
    case False
    have same: "clientCache cs' = clientCache cs" using taskStep_cache [OF st] False by simp
    have keep: "\<exists>j<length ts. \<exists>c. host (ts[i := t'] ! j) = h \<and> pc (ts[i := t'] ! j) = AtStore c"
      if "\<exists>j<length ts. \<exists>c. host (ts ! j) = h \<and> pc (ts ! j) = AtStore c"
    proof -
      from that obtain j c where j: "j < length ts" "host (ts ! j) = h" "pc (ts ! j) = AtStore c"
        by blast
      then have "j \<noteq> i" using False by (auto simp: t_def)
      then show ?thesis using j by (intro exI [of _ j]) simp
    qed
    show ?thesis
    proof (cases "pc t = AtDial")
      case nd: False
      then have "(h, True) \<in> set (dials cs)" using h taskStep_dials [OF st] by simp
      from d2 [OF this] keep show ?thesis by (auto simp: same)
    next
      case True
      from taskStep_AtDial [OF st True] show ?thesis
      proof
        assume ok: "dials cs' = dials cs @ [(host t, True)] \<and> pc t' = AtStore (length (dials cs))"
        show ?thesis
        proof (cases "h = host t")
          case True
          then show ?thesis using ok len taskStep_host [OF st]
            by (intro disjI2 exI [of _ i]) simp
        next
          case False
          then have "(h, True) \<in> set (dials cs)" using h ok by simp
          from d2 [OF this] keep show ?thesis by (auto simp: same)
        qed
      next
        assume "dials cs' = dials cs @ [(host t, False)] \<and> (\<exists>e. pc t' = AtUnlock (Inl e))"
        then have "(h, True) \<in> set (dials cs)" using h by simp
        from d2 [OF this] keep show ?thesis by (auto simp: same)
      qed
    qed
  qed
  have p3: "clientCache cs' (host (ts[i := t'] ! j)) = None"
    if j: "j < length ts" "pc (ts[i := t'] ! j) = AtDial \<or> (\<exists>c. pc (ts[i := t'] ! j) = AtStore c)" for j
  proof (cases "j = i")
    case True
    then have "pc t' = AtDial \<or> (\<exists>c. pc t' = AtStore c)" using j by simp
    then show ?thesis
    proof
      assume "pc t' = AtDial"
      from taskStep_to_AtDial [OF st this] taskStep_cache [OF st] taskStep_host [OF st] True len
      show ?thesis by simp
    next
      assume "\<exists>c. pc t' = AtStore c"
      then obtain c where "pc t' = AtStore c" by blast
      from taskStep_to_AtStore [OF st this] have dl: "pc t = AtDial" by simp
      then have "clientCache cs (host t) = None" using d3 [OF len] by (simp add: t_def)
      then show ?thesis using taskStep_cache [OF st] taskStep_host [OF st] True len dl by simp
    qed
  next
    case False
    then have old: "pc (ts ! j) = AtDial \<or> (\<exists>c. pc (ts ! j) = AtStore c)" using j by simp
    then have cj: "crit (pc (ts ! j))" by (auto simp: crit_def)
    have "\<forall>c. pc t \<noteq> AtStore c"
    proof (intro allI notI)
      fix c assume "pc t = AtStore c"
      then have "crit (pc t)" by (simp add: crit_def)
      from uniq [OF j(1) cj this] False show False by simp
    qed
    then have "clientCache cs' = clientCache cs" using taskStep_cache [OF st] by simp
    then show ?thesis using d3 [OF j(1) old] False by simp
  qed
  show ?thesis
    unfolding dialInv_def \<sigma>' established_def using p1 p2 p3 by simp
qed

subsection \<open>Results\<close>

lemma taskStep_dials_mono: "taskStep D t cs = (t', cs') \<Longrightarrow> set (dials cs) \<subseteq> set (dials cs')"
  by (cases "pc t") (auto simp: taskStep_def split: option.splits if_splits)

lemma taskStep_result_Inl:
  "taskStep D t cs = (t', cs') \<Longrightarrow> pc t' = Returned (Inl e) \<or> pc t' = AtUnlock (Inl e) \<Longrightarrow>
   host t \<noteq> [] \<Longrightarrow>
   (pc t = Returned (Inl e) \<or> pc t = AtUnlock (Inl e) \<Longrightarrow> (host t, False) \<in> set (dials cs)) \<Longrightarrow>
   (host t, False) \<in> set (dials cs')"
  by (cases "pc t") (auto simp: taskStep_def split: option.splits if_splits)

lemma taskStep_result_Inr:
  "taskStep D t cs = (t', cs') \<Longrightarrow> pc t' = Returned (Inr c) \<or> pc t' = AtUnlock (Inr c) \<Longrightarrow>
   (pc t = Returned (Inr c) \<or> pc t = AtUnlock (Inr c) \<Longrightarrow> clientCache cs (host t) = Some c) \<Longrightarrow>
   clientCache cs' (host t) = Some c"
  by (cases "pc t") (auto simp: taskStep_def split: option.splits if_splits)

lemma taskStep_cache_grows:
  "taskStep D t cs = (t', cs') \<Longrightarrow> clientCache cs' h \<noteq> None \<Longrightarrow>
   clientCache cs h \<noteq> None \<or> (\<exists>c. pc t = AtStore c \<and> h = host t)"
  by (cases "pc t") (auto simp: taskStep_def split: option.splits if_splits)

lemma taskStep_dial_failed:
  "taskStep D t cs = (t', cs') \<Longrightarrow> (h, False) \<in> set (dials cs') \<Longrightarrow>
   (h, False) \<in> set (dials cs) \<or> (\<exists>n. D n h \<noteq> None)"
  by (cases "pc t") (auto simp: taskStep_def split: option.splits if_splits)

lemma resultInv_step:
  assumes m: "mutexInv \<sigma>" and d: "dialInv \<sigma>" and r: "resultInv D cache0 \<sigma>"
  shows "resultInv D cache0 (sysStep D i \<sigma>)"
proof (cases "i < length (tasks \<sigma>)")
  case False
  then show ?thesis using r by (simp add: sysStep_def)
next
  case True
  define ts where "ts = tasks \<sigma>"
  define cs where "cs = shared \<sigma>"
  define t where "t = ts ! i"
  obtain t' cs' where st: "taskStep D t cs = (t', cs')" by (cases "taskStep D t cs")
  have \<sigma>': "sysStep D i \<sigma> = \<lparr>tasks = ts[i := t'], shared = cs'\<rparr>"
    using True st by (simp add: sysStep_def ts_def cs_def t_def)
  have len: "i < length ts" using True by (simp add: ts_def)
  have ht: "host t' = host t" using taskStep_host [OF st] .
  have mono: "set (dials cs) \<subseteq> set (dials cs')" using taskStep_dials_mono [OF st] .
  have d3: "\<And>j. j < length ts \<Longrightarrow> pc (ts ! j) = AtDial \<or> (\<exists>c. pc (ts ! j) = AtStore c) \<Longrightarrow>
      clientCache cs (host (ts ! j)) = None"
    using d unfolding dialInv_def cs_def ts_def by blast
  have r1: "\<And>j e. j < length ts \<Longrightarrow> host (ts ! j) \<noteq> [] \<Longrightarrow>
      pc (ts ! j) = Returned (Inl e) \<or> pc (ts ! j) = AtUnlock (Inl e) \<Longrightarrow>
      (host (ts ! j), False) \<in> set (dials cs)"
    using r unfolding resultInv_def cs_def ts_def by blast
  have r2: "\<And>j c. j < length ts \<Longrightarrow>
      pc (ts ! j) = Returned (Inr c) \<or> pc (ts ! j) = AtUnlock (Inr c) \<Longrightarrow>
      clientCache cs (host (ts ! j)) = Some c"
    using r unfolding resultInv_def cs_def ts_def by blast
  have r3: "\<And>j c. j < length ts \<Longrightarrow> pc (ts ! j) = AtStore c \<Longrightarrow>
      (host (ts ! j), True) \<in> set (dials cs)"
    using r unfolding resultInv_def cs_def ts_def by blast
  have r4: "\<And>h. clientCache cs h \<noteq> None \<Longrightarrow> cache0 h \<noteq> None \<or> (h, True) \<in> set (dials cs)"
    using r unfolding resultInv_def cs_def by blast
  have r5: "\<And>h. (h, False) \<in> set (dials cs) \<Longrightarrow> \<exists>n. D n h \<noteq> None"
    using r unfolding resultInv_def cs_def by blast
  have q1: "(host (ts[i := t'] ! j), False) \<in> set (dials cs')"
    if "j < length ts" "host (ts[i := t'] ! j) \<noteq> []"
       "pc (ts[i := t'] ! j) = Returned (Inl e) \<or> pc (ts[i := t'] ! j) = AtUnlock (Inl e)" for j e
  proof (cases "j = i")
    case True
    then show ?thesis
      using that len ht taskStep_result_Inl [OF st, of e] r1 [OF len, of e]
      by (auto simp: t_def)
  next
    case False
    then show ?thesis using that r1 [of j e] mono by auto
  qed
  have q2: "clientCache cs' (host (ts[i := t'] ! j)) = Some c"
    if "j < length ts"
       "pc (ts[i := t'] ! j) = Returned (Inr c) \<or> pc (ts[i := t'] ! j) = AtUnlock (Inr c)" for j c
  proof (cases "j = i")
    case True
    then show ?thesis
      using that len ht taskStep_result_Inr [OF st, of c] r2 [OF len, of c]
      by (auto simp: t_def)
  next
    case False
    then have old: "clientCache cs (host (ts ! j)) = Some c" using that r2 [of j c] by simp
    show ?thesis
    proof (cases "\<exists>c'. pc t = AtStore c'")
      case True
      then obtain c' where c': "pc t = AtStore c'" by blast
      then have "clientCache cs (host t) = None" using d3 [OF len] by (simp add: t_def)
      then have "host (ts ! j) \<noteq> host t" using old by auto
      then show ?thesis using taskStep_AtStore [OF st c'] old False by simp
    next
      case nst: False
      then show ?thesis using taskStep_cache [OF st] old False by simp
    qed
  qed
  have q3: "(host (ts[i := t'] ! j), True) \<in> set (dials cs')"
    if "j < length ts" "pc (ts[i := t'] ! j) = AtStore c" for j c
  proof (cases "j = i")
    case True
    then show ?thesis using that len ht taskStep_to_AtStore [OF st, of c] by simp
  next
    case False
    then show ?thesis using that r3 [of j c] mono by auto
  qed
  have q4: "cache0 h \<noteq> None \<or> (h, True) \<in> set (dials cs')" if "clientCache cs' h \<noteq> None" for h
  proof -
    from taskStep_cache_grows [OF st that] show ?thesis
    proof
      assume "clientCache cs h \<noteq> None"
      from r4 [OF this] mono show ?thesis by auto
    next
      assume "\<exists>c. pc t = AtStore c \<and> h = host t"
      then show ?thesis using r3 [OF len] mono by (auto simp: t_def)
    qed
  qed
  have q5: "\<exists>n. D n h \<noteq> None" if "(h, False) \<in> set (dials cs')" for h
    using taskStep_dial_failed [OF st that] r5 by blast
  show ?thesis
    unfolding resultInv_def \<sigma>' using q1 q2 q3 q4 q5 by simp blast
qed

lemma cacheInv_init: "cacheInv D cache0 (initSys cache0 hs)"
  by (simp add: cacheInv_def mutexInv_def dialInv_def resultInv_def initSys_def established_def crit_def)

lemma cacheInv_run: "cacheInv D cache0 \<sigma> \<Longrightarrow> cacheInv D cache0 (run D sched \<sigma>)"
proof (induction sched arbitrary: \<sigma>)
  case Nil
  then show ?case by simp
next
  case (Cons i sched)
  from Cons.prems have "cacheInv D cache0 (sysStep D i \<sigma>)"
    unfolding cacheInv_def by (simp add: mutexInv_step dialInv_step resultInv_step)
  then show ?case by (simp add: Cons.IH)
qed

lemma hosts_sysStep: "map host (tasks (sysStep D i \<sigma>)) = map host (tasks \<sigma>)"
proof (cases "i < length (tasks \<sigma>)")
  case False
  then show ?thesis by (simp add: sysStep_def)
next
  case True
  obtain t' cs' where st: "taskStep D (tasks \<sigma> ! i) (shared \<sigma>) = (t', cs')"
    by (cases "taskStep D (tasks \<sigma> ! i) (shared \<sigma>)")
  have "(map host (tasks \<sigma>))[i := host (tasks \<sigma> ! i)] = map host (tasks \<sigma>)"
    using True by (simp add: list_update_same_conv)
  then show ?thesis
    using True st taskStep_host [OF st] by (simp add: sysStep_def map_update)
qed

lemma hosts_run: "map host (tasks (run D sched \<sigma>)) = map host (tasks \<sigma>)"
  by (induction sched arbitrary: \<sigma>) (simp_all add: hosts_sysStep)

lemma is_Returned: "(case p of Returned r \<Rightarrow> True | _ \<Rightarrow> False) = (\<exists>r. p = Returned r)"
  by (cases p) auto

lemma allReturned_iff: "allReturned \<sigma> = (\<forall>t\<in>set (tasks \<sigma>). \<exists>r. pc t = Returned r)"
  by (simp add: allReturned_def list_all_iff is_Returned)

lemma established_pos: "(h, True) \<in> set (dials (shared \<sigma>)) \<Longrightarrow> 0 < established h \<sigma>"
  by (simp add: established_def filter_empty_conv)

lemma getClient_dial_fails:
  assumes "h \<noteq> []" and "clientCache cs h = None" and "\<not> mutex cs"
    and "D (length (dials cs)) h = Some e"
  shows "getClient D h cs = Some (Inl e, cs\<lparr>dials := dials cs @ [(h, False)]\<rparr>)"
  using assms by (simp add: getClient_def eval_nat_numeral taskStep_def)

subsection \<open>Progress\<close>

lemma taskStep_rank:
  "taskStep D t cs = (t', cs') \<Longrightarrow>
   rank (pc t') \<le> rank (pc t) \<and> (pc t' \<noteq> pc t \<longrightarrow> rank (pc t') < rank (pc t))"
  by (cases "pc t") (auto simp: taskStep_def rank_def split: option.splits if_splits)

lemma taskStep_moves:
  "taskStep D t cs = (t', cs') \<Longrightarrow> \<forall>r. pc t \<noteq> Returned r \<Longrightarrow> \<not> (pc t = AtLock \<and> mutex cs) \<Longrightarrow>
   pc t' \<noteq> pc t"
  by (cases "pc t") (auto simp: taskStep_def split: option.splits if_splits)

lemma remaining_sysStep:
  "remaining (sysStep D i \<sigma>) \<le> remaining \<sigma> \<and>
   (moves D \<sigma> i \<longrightarrow> remaining (sysStep D i \<sigma>) < remaining \<sigma>)"
proof (cases "i < length (tasks \<sigma>)")
  case False
  then show ?thesis by (simp add: sysStep_def moves_def)
next
  case True
  obtain t' cs' where st: "taskStep D (tasks \<sigma> ! i) (shared \<sigma>) = (t', cs')"
    by (cases "taskStep D (tasks \<sigma> ! i) (shared \<sigma>)")
  define rs where "rs = map (\<lambda>t. rank (pc t)) (tasks \<sigma>)"
  have i: "i < length rs" "rs ! i = rank (pc (tasks \<sigma> ! i))" using True by (simp_all add: rs_def)
  have le: "rs ! i \<le> sum_list rs" using i(1) by (simp add: member_le_sum_list)
  have new: "remaining (sysStep D i \<sigma>) = sum_list (rs[i := rank (pc t')])"
    using True st by (simp add: remaining_def sysStep_def rs_def map_update)
  have upd: "sum_list (rs[i := rank (pc t')]) = sum_list rs + rank (pc t') - rs ! i"
    using i(1) by (rule sum_list_update)
  have old: "remaining \<sigma> = sum_list rs" by (simp add: remaining_def rs_def)
  from taskStep_rank [OF st] i(2) le show ?thesis
    unfolding new upd old moves_def using True st by auto
qed

lemma taskStep_mutex:
  "taskStep D t cs = (t', cs') \<Longrightarrow> mutex cs' \<Longrightarrow> \<not> crit (pc t') \<Longrightarrow>
   mutex cs \<and> \<not> crit (pc t)"
  by (cases "pc t") (auto simp: taskStep_def crit_def split: option.splits if_splits)

lemma holderInv_step:
  assumes "holderInv \<sigma>"
  shows "holderInv (sysStep D i \<sigma>)"
proof (cases "i < length (tasks \<sigma>)")
  case False
  then show ?thesis using assms by (simp add: sysStep_def)
next
  case True
  obtain t' cs' where st: "taskStep D (tasks \<sigma> ! i) (shared \<sigma>) = (t', cs')"
    by (cases "taskStep D (tasks \<sigma> ! i) (shared \<sigma>)")
  have \<sigma>': "sysStep D i \<sigma> = \<lparr>tasks = (tasks \<sigma>)[i := t'], shared = cs'\<rparr>"
    using True st by (simp add: sysStep_def)
  have "\<exists>j<length (tasks \<sigma>). crit (pc ((tasks \<sigma>)[i := t'] ! j))" if m: "mutex cs'"
  proof (cases "crit (pc t')")
    case c: True
    then show ?thesis using True by (intro exI [of _ i]) simp
  next
    case False
    from taskStep_mutex [OF st m False]
    have old: "mutex (shared \<sigma>)" "\<not> crit (pc (tasks \<sigma> ! i))" by simp_all
    then obtain k where k: "k < length (tasks \<sigma>)" "crit (pc (tasks \<sigma> ! k))"
      using assms unfolding holderInv_def by blast
    then have "k \<noteq> i" using old(2) by auto
    then show ?thesis using k by (intro exI [of _ k]) simp
  qed
  then show ?thesis unfolding holderInv_def \<sigma>' by simp
qed

lemma holderInv_init: "holderInv (initSys cache0 hs)"
  by (simp add: holderInv_def initSys_def)

lemma holderInv_run: "holderInv \<sigma> \<Longrightarrow> holderInv (run D sched \<sigma>)"
  by (induction sched arbitrary: \<sigma>) (simp_all add: holderInv_step)

lemma remaining_run: "remaining (run D sched \<sigma>) \<le> remaining \<sigma>"
proof (induction sched arbitrary: \<sigma>)
  case Nil
  then show ?case by simp
next
  case (Cons i sched)
  have "remaining (run D sched (sysStep D i \<sigma>)) \<le> remaining (sysStep D i \<sigma>)"
    by (rule Cons.IH)
  also have "\<dots> \<le> remaining \<sigma>" using remaining_sysStep [of D i \<sigma>] by simp
  finally show ?case by simp
qed

lemma remaining_init: "remaining (initSys cache0 hs) = 7 * length hs"
  by (induction hs) (simp_all add: remaining_def initSys_def rank_def)

lemma no_deadlock:
  assumes h: "holderInv \<sigma>" and n: "\<not> allReturned \<sigma>"
  shows "\<exists>i. moves D \<sigma> i"
proof -
  from n obtain j where j: "j < length (tasks \<sigma>)" "\<forall>r. pc (tasks \<sigma> ! j) \<noteq> Returned r"
    unfolding allReturned_iff by (metis in_set_conv_nth)
  have mv: "moves D \<sigma> k"
    if "k < length (tasks \<sigma>)" "\<forall>r. pc (tasks \<sigma> ! k) \<noteq> Returned r"
       "\<not> (pc (tasks \<sigma> ! k) = AtLock \<and> mutex (shared \<sigma>))" for k
  proof -
    obtain t' cs' where st: "taskStep D (tasks \<sigma> ! k) (shared \<sigma>) = (t', cs')"
      by (cases "taskStep D (tasks \<sigma> ! k) (shared \<sigma>)")
    from taskStep_moves [OF st that(2,3)] show ?thesis using that(1) st by (simp add: moves_def)
  qed
  show ?thesis
  proof (cases "pc (tasks \<sigma> ! j) = AtLock \<and> mutex (shared \<sigma>)")
    case False
    then show ?thesis using mv [OF j] by blast
  next
    case True
    then obtain k where k: "k < length (tasks \<sigma>)" "crit (pc (tasks \<sigma> ! k))"
      using h unfolding holderInv_def by blast
    then have "\<forall>r. pc (tasks \<sigma> ! k) \<noteq> Returned r" "pc (tasks \<sigma> ! k) \<noteq> AtLock"
      by (auto simp: crit_def)
    then show ?thesis using mv [OF k(1)] by blast
  qed
qed

lemma remaining_zero: "remaining \<sigma> = 0 \<Longrightarrow> allReturned \<sigma>"
proof -
  assume "remaining \<sigma> = 0"
  then have "\<forall>t\<in>set (tasks \<sigma>). rank (pc t) = 0" by (simp add: remaining_def)
  moreover have "rank p = 0 \<Longrightarrow> \<exists>r. p = Returned r" for p
    by (cases p) (simp_all add: rank_def)
  ultimately show ?thesis unfolding allReturned_iff by blast
qed

lemma finish_returns:
  "holderInv \<sigma> \<Longrightarrow> remaining \<sigma> \<le> n \<Longrightarrow> allReturned (finish D n \<sigma>)"
proof (induction n arbitrary: \<sigma>)
  case 0
  then show ?case by (simp add: remaining_zero)
next
  case (Suc n)
  show ?case
  proof (cases "find (moves D \<sigma>) [0..<length (tasks \<sigma>)]")
    case None
    then have "\<not> (\<exists>i. moves D \<sigma> i)" by (auto simp: find_None_iff moves_def)
    then have "allReturned \<sigma>" using no_deadlock [OF Suc.prems(1)] by blast
    then show ?thesis using None by simp
  next
    case (Some i)
    then have mv: "moves D \<sigma> i" by (auto simp: find_Some_iff)
    then have "remaining (sysStep D i \<sigma>) \<le> n"
      using remaining_sysStep [of D i \<sigma>] Suc.prems(2) by simp
    then have "allReturned (finish D n (sysStep D i \<sigma>))"
      using Suc.IH holderInv_step [OF Suc.prems(1)] by blast
    then show ?thesis using Some by simp
  qed
qed

lemma cacheInv_finish: "cacheInv D cache0 \<sigma> \<Longrightarrow> cacheInv D cache0 (finish D n \<sigma>)"
proof (induction n arbitrary: \<sigma>)
  case 0
  then show ?case by simp
next
  case (Suc n)
  show ?case
  proof (cases "find (moves D \<sigma>) [0..<length (tasks \<sigma>)]")
    case None
    then show ?thesis using Suc.prems by simp
  next
    case (Some i)
    have "cacheInv D cache0 (sysStep D i \<sigma>)"
      using cacheInv_run [OF Suc.prems, of "[i]"] by simp
    then show ?thesis using Some Suc.IH by simp
  qed
qed

lemma hosts_finish: "map host (tasks (finish D n \<sigma>)) = map host (tasks \<sigma>)"
proof (induction n arbitrary: \<sigma>)
  case 0
  then show ?case by simp
next
  case (Suc n)
  then show ?case
    by (cases "find (moves D \<sigma>) [0..<length (tasks \<sigma>)]") (simp_all add: hosts_sysStep)
qed

lemma exactly_one_when_returned:
  assumes inv: "cacheInv D cache0 \<sigma>" and hosts: "map host (tasks \<sigma>) = replicate N h"
    and a: "h \<noteq> []" "cache0 h = None" "0 < N" "\<forall>n. D n h = None" "allReturned \<sigma>"
  shows "established h \<sigma> = 1 \<and>
         (\<exists>c. clientCache (shared \<sigma>) h = Some c \<and> (\<forall>t\<in>set (tasks \<sigma>). pc t = Returned (Inr c)))"
proof -
  have len: "length (tasks \<sigma>) = N" using hosts by (metis length_map length_replicate)
  have hj: "host (tasks \<sigma> ! j) = h" if "j < N" for j
    using hosts that len by (metis nth_map nth_replicate)
  have ret: "\<exists>r. pc (tasks \<sigma> ! j) = Returned r" if "j < N" for j
    using a(5) that len by (simp add: allReturned_iff)
  have res: "resultInv D cache0 \<sigma>" using inv by (simp add: cacheInv_def)
  have r1: "(h, False) \<in> set (dials (shared \<sigma>))"
    if "j < N" "pc (tasks \<sigma> ! j) = Returned (Inl e)" for j e
  proof -
    have "\<forall>e. host (tasks \<sigma> ! j) \<noteq> [] \<and>
          (pc (tasks \<sigma> ! j) = Returned (Inl e) \<or> pc (tasks \<sigma> ! j) = AtUnlock (Inl e)) \<longrightarrow>
          (host (tasks \<sigma> ! j), False) \<in> set (dials (shared \<sigma>))"
      using res that(1) len unfolding resultInv_def by blast
    then show ?thesis using that a(1) hj by auto
  qed
  have r2: "clientCache (shared \<sigma>) h = Some c"
    if "j < N" "pc (tasks \<sigma> ! j) = Returned (Inr c)" for j c
  proof -
    have "\<forall>c. pc (tasks \<sigma> ! j) = Returned (Inr c) \<or> pc (tasks \<sigma> ! j) = AtUnlock (Inr c) \<longrightarrow>
          clientCache (shared \<sigma>) (host (tasks \<sigma> ! j)) = Some c"
      using res that(1) len unfolding resultInv_def by blast
    then show ?thesis using that hj by auto
  qed
  have "\<forall>h. clientCache (shared \<sigma>) h \<noteq> None \<longrightarrow>
          cache0 h \<noteq> None \<or> (h, True) \<in> set (dials (shared \<sigma>))"
    using res unfolding resultInv_def by blast
  then have r4: "clientCache (shared \<sigma>) h \<noteq> None \<Longrightarrow> (h, True) \<in> set (dials (shared \<sigma>))"
    using a(2) by auto
  have "\<forall>h. (h, False) \<in> set (dials (shared \<sigma>)) \<longrightarrow> (\<exists>n. D n h \<noteq> None)"
    using res unfolding resultInv_def by blast
  then have r5: "(h, False) \<notin> set (dials (shared \<sigma>))"
    using a(4) by auto
  have inr: "\<exists>c. pc (tasks \<sigma> ! j) = Returned (Inr c)" if lt: "j < N" for j
  proof -
    obtain r where r: "pc (tasks \<sigma> ! j) = Returned r" using ret [OF lt] by blast
    show ?thesis
    proof (cases r)
      case (Inl e)
      then show ?thesis using r1 [OF lt] r r5 by simp
    next
      case (Inr c)
      then show ?thesis using r by simp
    qed
  qed
  obtain c where c: "pc (tasks \<sigma> ! 0) = Returned (Inr c)" using inr [of 0] a(3) by blast
  then have cache: "clientCache (shared \<sigma>) h = Some c" using r2 [of 0 c] a(3) by simp
  have one: "established h \<sigma> = 1"
  proof -
    have "0 < established h \<sigma>" using r4 cache by (simp add: established_pos)
    moreover have "established h \<sigma> \<le> 1" using inv by (simp add: cacheInv_def dialInv_def)
    ultimately show ?thesis by simp
  qed
  have all: "pc t = Returned (Inr c)" if mem: "t \<in> set (tasks \<sigma>)" for t
  proof -
    obtain j where j: "j < N" "t = tasks \<sigma> ! j" using mem len by (metis in_set_conv_nth)
    obtain c' where c': "pc (tasks \<sigma> ! j) = Returned (Inr c')" using inr [OF j(1)] by blast
    then have "clientCache (shared \<sigma>) h = Some c'" using r2 [OF j(1)] by simp
    then show ?thesis using cache c' j by simp
  qed
  show ?thesis using one cache all by blast
qed

text \<open>
  C9. \<^verbatim>\<open>getClient\<close> with the empty host returns the error \<^verbatim>\<open>empty host\<close> and leaves
  the cache, the mutex and the list of dial attempts as they were: no connection is
  attempted. It returns even while another task holds the mutex.
\<close>

theorem empty_host_rejected: "getClient D [] cs = Some (Inl (Errorf ''empty host''), cs)"
  by (simp add: getClient_def eval_nat_numeral taskStep_def)

text \<open>
  C7. Whatever tasks call \<^verbatim>\<open>getClient\<close>, in whatever interleaving, with whatever outcomes
  of the dials and whatever cache at the start, no host gets more than one connection.
  When \<open>N > 0\<close> tasks ask for the same non-empty host that the cache does not hold, no dial
  fails and all tasks have returned, exactly one connection to the host was established,
  the cache holds its client, and every task returned that client. A call whose dial
  fails returns the dial's error and leaves the cache as it was.

  The tasks do return. In every state they can reach, some task can move unless all have
  returned; a task that moves has one step less to go, and \<open>N\<close> tasks have at most \<open>7 * N\<close>
  steps to go between them. So after any interleaving, letting the tasks run on brings all
  of them to their return within \<open>7 * N\<close> steps, and then, for \<open>N > 0\<close> tasks asking for the
  same non-empty host that the cache does not hold and no failing dial, exactly one
  connection to the host has been established and every task holds its client.
\<close>

theorem one_connection_per_host:
  "established h (run D sched (initSys cache0 hs)) \<le> 1 \<and>
   (h \<noteq> [] \<and> cache0 h = None \<and> 0 < N \<and> (\<forall>n. D n h = None) \<and>
    allReturned (run D sched (initSys cache0 (replicate N h))) \<longrightarrow>
      established h (run D sched (initSys cache0 (replicate N h))) = 1 \<and>
      (\<exists>c. clientCache (shared (run D sched (initSys cache0 (replicate N h)))) h = Some c \<and>
           (\<forall>t\<in>set (tasks (run D sched (initSys cache0 (replicate N h)))).
              pc t = Returned (Inr c)))) \<and>
   (h \<noteq> [] \<and> clientCache cs h = None \<and> \<not> mutex cs \<and> D (length (dials cs)) h = Some e \<longrightarrow>
      getClient D h cs = Some (Inl e, cs\<lparr>dials := dials cs @ [(h, False)]\<rparr>)) \<and>
   (\<not> allReturned (run D sched (initSys cache0 hs)) \<longrightarrow>
      (\<exists>i. moves D (run D sched (initSys cache0 hs)) i)) \<and>
   (moves D \<sigma> i \<longrightarrow> remaining (sysStep D i \<sigma>) < remaining \<sigma>) \<and>
   remaining (run D sched (initSys cache0 hs)) \<le> 7 * length hs \<and>
   allReturned (finish D (7 * length hs) (run D sched (initSys cache0 hs))) \<and>
   (h \<noteq> [] \<and> cache0 h = None \<and> 0 < N \<and> (\<forall>n. D n h = None) \<longrightarrow>
      established h (finish D (7 * N) (run D sched (initSys cache0 (replicate N h)))) = 1 \<and>
      (\<exists>c. clientCache (shared (finish D (7 * N) (run D sched (initSys cache0 (replicate N h)))))
             h = Some c \<and>
           (\<forall>t\<in>set (tasks (finish D (7 * N) (run D sched (initSys cache0 (replicate N h))))).
              pc t = Returned (Inr c))))"
proof -
  have inv: "cacheInv D cache0 (run D sched (initSys cache0 xs))" for xs
    by (intro cacheInv_run cacheInv_init)
  have hold: "holderInv (run D sched (initSys cache0 xs))" for xs
    by (intro holderInv_run holderInv_init)
  have rem: "remaining (run D sched (initSys cache0 xs)) \<le> 7 * length xs" for xs
    using remaining_run [of D sched "initSys cache0 xs"] by (simp add: remaining_init)
  have fin: "allReturned (finish D (7 * length xs) (run D sched (initSys cache0 xs)))" for xs
    by (intro finish_returns hold rem)
  have hosts: "map host (tasks (run D sched (initSys cache0 (replicate N h)))) = replicate N h"
    by (simp add: hosts_run initSys_def comp_def map_replicate_const)
  have p1: "established h (run D sched (initSys cache0 hs)) \<le> 1"
    using inv [of hs] by (simp add: cacheInv_def dialInv_def)
  have p2: "established h (run D sched (initSys cache0 (replicate N h))) = 1 \<and>
      (\<exists>c. clientCache (shared (run D sched (initSys cache0 (replicate N h)))) h = Some c \<and>
           (\<forall>t\<in>set (tasks (run D sched (initSys cache0 (replicate N h)))).
              pc t = Returned (Inr c)))"
    if "h \<noteq> [] \<and> cache0 h = None \<and> 0 < N \<and> (\<forall>n. D n h = None) \<and>
        allReturned (run D sched (initSys cache0 (replicate N h)))"
    using that by (intro exactly_one_when_returned [OF inv hosts]) simp_all
  have p3: "getClient D h cs = Some (Inl e, cs\<lparr>dials := dials cs @ [(h, False)]\<rparr>)"
    if "h \<noteq> [] \<and> clientCache cs h = None \<and> \<not> mutex cs \<and> D (length (dials cs)) h = Some e"
    using that by (simp add: getClient_dial_fails)
  have p4: "\<exists>i. moves D (run D sched (initSys cache0 hs)) i"
    if "\<not> allReturned (run D sched (initSys cache0 hs))"
    using no_deadlock [OF hold that] .
  have p5: "remaining (sysStep D i \<sigma>) < remaining \<sigma>" if "moves D \<sigma> i"
    using remaining_sysStep [of D i \<sigma>] that by simp
  have p8: "established h (finish D (7 * N) (run D sched (initSys cache0 (replicate N h)))) = 1 \<and>
      (\<exists>c. clientCache (shared (finish D (7 * N) (run D sched (initSys cache0 (replicate N h)))))
             h = Some c \<and>
           (\<forall>t\<in>set (tasks (finish D (7 * N) (run D sched (initSys cache0 (replicate N h))))).
              pc t = Returned (Inr c)))"
    if a: "h \<noteq> [] \<and> cache0 h = None \<and> 0 < N \<and> (\<forall>n. D n h = None)"
  proof -
    have 1: "cacheInv D cache0 (finish D (7 * N) (run D sched (initSys cache0 (replicate N h))))"
      by (intro cacheInv_finish inv)
    have 2: "map host (tasks (finish D (7 * N) (run D sched (initSys cache0 (replicate N h))))) =
        replicate N h"
      by (simp add: hosts_finish hosts)
    have 3: "allReturned (finish D (7 * N) (run D sched (initSys cache0 (replicate N h))))"
      using fin [of "replicate N h"] by simp
    show ?thesis using a 3 by (intro exactly_one_when_returned [OF 1 2]) simp_all
  qed
  show ?thesis using p1 p2 p3 p4 p5 rem [of hs] fin [of hs] p8 by blast
qed

lemma sample_run:
  "run dialOk sampleSched (initSys (\<lambda>h. None) (replicate 2 ''peer:37101'')) =
     \<lparr>tasks = [\<lparr>host = ''peer:37101'', pc = Returned (Inr 0)\<rparr>,
               \<lparr>host = ''peer:37101'', pc = Returned (Inr 0)\<rparr>],
      shared = \<lparr>clientCache = (\<lambda>h. None)(''peer:37101'' := Some 0), mutex = False,
                dials = [(''peer:37101'', True)]\<rparr>\<rparr>"
  by (simp add: sampleSched_def initSys_def sysStep_def taskStep_def dialOk_def eval_nat_numeral)

theorem one_connection_per_host_witness:
  "''peer:37101'' \<noteq> [] \<and> (0::nat) < 2 \<and> (\<forall>n. dialOk n ''peer:37101'' = None) \<and>
   allReturned (run dialOk sampleSched (initSys (\<lambda>h. None) (replicate 2 ''peer:37101''))) \<and>
   established ''peer:37101'' (run dialOk sampleSched (initSys (\<lambda>h. None) (replicate 2 ''peer:37101''))) = 1 \<and>
   tasks (run dialOk sampleSched (initSys (\<lambda>h. None) (replicate 2 ''peer:37101''))) =
     [\<lparr>host = ''peer:37101'', pc = Returned (Inr 0)\<rparr>,
      \<lparr>host = ''peer:37101'', pc = Returned (Inr 0)\<rparr>] \<and>
   clientCache emptyCache ''peer:37101'' = None \<and> \<not> mutex emptyCache \<and>
   dialRefused (length (dials emptyCache)) ''peer:37101'' = Some (Errorf ''connection refused'') \<and>
   getClient dialRefused ''peer:37101'' emptyCache =
     Some (Inl (Errorf ''connection refused''),
           emptyCache\<lparr>dials := [(''peer:37101'', False)]\<rparr>) \<and>
   \<not> allReturned (run dialOk [0, Suc 0, 0] (initSys (\<lambda>h. None) (replicate 2 ''peer:37101''))) \<and>
   (\<exists>i. moves dialOk (run dialOk [0, Suc 0, 0] (initSys (\<lambda>h. None) (replicate 2 ''peer:37101''))) i) \<and>
   moves dialOk (initSys (\<lambda>h. None) (replicate 2 ''peer:37101'')) 0 \<and>
   remaining (sysStep dialOk 0 (initSys (\<lambda>h. None) (replicate 2 ''peer:37101''))) <
     remaining (initSys (\<lambda>h. None) (replicate 2 ''peer:37101'')) \<and>
   allReturned (finish dialOk 14
     (run dialOk [0, Suc 0, 0] (initSys (\<lambda>h. None) (replicate 2 ''peer:37101'')))) \<and>
   established ''peer:37101'' (finish dialOk 14
     (run dialOk [0, Suc 0, 0] (initSys (\<lambda>h. None) (replicate 2 ''peer:37101'')))) = 1"
proof -
  have r: "allReturned (run dialOk sampleSched (initSys (\<lambda>h. None) (replicate 2 ''peer:37101'')))"
    unfolding sample_run by (simp add: allReturned_def)
  have d: "\<forall>n. dialOk n ''peer:37101'' = None" by (simp add: dialOk_def)
  have f: "dialRefused (length (dials emptyCache)) ''peer:37101'' = Some (Errorf ''connection refused'')"
    by (simp add: dialRefused_def)
  have c: "clientCache emptyCache ''peer:37101'' = None" "\<not> mutex emptyCache" "dials emptyCache = []"
    by (simp_all add: emptyCache_def)
  have n: "\<not> allReturned (run dialOk [0, Suc 0, 0] (initSys (\<lambda>h. None) (replicate 2 ''peer:37101'')))"
    by (simp add: initSys_def sysStep_def taskStep_def allReturned_def eval_nat_numeral)
  have m: "moves dialOk (initSys (\<lambda>h. None) (replicate 2 ''peer:37101'')) 0"
    by (simp add: moves_def initSys_def taskStep_def eval_nat_numeral)
  from one_connection_per_host [where h = "''peer:37101''" and D = dialOk and sched = sampleSched
      and ?cache0.0 = "\<lambda>h. None" and hs = "replicate 2 ''peer:37101''" and N = 2] r d
  have 1: "established ''peer:37101'' (run dialOk sampleSched (initSys (\<lambda>h. None) (replicate 2 ''peer:37101''))) = 1"
    by simp
  from one_connection_per_host [where h = "''peer:37101''" and D = dialRefused
      and cs = emptyCache and e = "Errorf ''connection refused''"] f c
  have 2: "getClient dialRefused ''peer:37101'' emptyCache =
     Some (Inl (Errorf ''connection refused''), emptyCache\<lparr>dials := [(''peer:37101'', False)]\<rparr>)"
    by simp
  from one_connection_per_host [where h = "''peer:37101''" and D = dialOk and sched = "[0, Suc 0, 0]"
      and ?cache0.0 = "\<lambda>h. None" and hs = "replicate 2 ''peer:37101''" and N = 2
      and \<sigma> = "initSys (\<lambda>h. None) (replicate 2 ''peer:37101'')" and i = 0] d n m
  have 3: "(\<exists>i. moves dialOk (run dialOk [0, Suc 0, 0] (initSys (\<lambda>h. None) (replicate 2 ''peer:37101''))) i) \<and>
   remaining (sysStep dialOk 0 (initSys (\<lambda>h. None) (replicate 2 ''peer:37101''))) <
     remaining (initSys (\<lambda>h. None) (replicate 2 ''peer:37101'')) \<and>
   allReturned (finish dialOk 14
     (run dialOk [0, Suc 0, 0] (initSys (\<lambda>h. None) (replicate 2 ''peer:37101'')))) \<and>
   established ''peer:37101'' (finish dialOk 14
     (run dialOk [0, Suc 0, 0] (initSys (\<lambda>h. None) (replicate 2 ''peer:37101'')))) = 1"
    by simp
  show ?thesis using r d f c n m 1 2 3 by (simp add: sample_run)
qed

section \<open>Properties of the orchestrator\<close>

lemma engExits_only_by_rpc_or_signal:
  "exec as s = Some s' \<Longrightarrow> SelectRpcChan \<notin> set as \<Longrightarrow> SelectSigChan \<notin> set as \<Longrightarrow>
   engExits s' = engExits s"
proof (induction as arbitrary: s)
  case Nil
  then show ?case by simp
next
  case (Cons a as)
  then obtain s1 where 1: "step a s = Some s1" "exec as s1 = Some s'"
    by (auto split: option.splits)
  have "engExits s1 = engExits s"
    using 1(1) Cons.prems(2,3) by (cases a) (auto simp: step_def wgDone_def split: if_splits)
  then show ?case using Cons.IH [OF 1(2)] Cons.prems by simp
qed

text \<open>
  Once the engine's completion has been received, only a receive from \<^verbatim>\<open>rpcChan\<close>
  changes the counter of the WaitGroup.
\<close>

lemma wg_stuck_without_rpcChan:
  "exec as s = Some s' \<Longrightarrow> SelectRpcChan \<notin> set as \<Longrightarrow> \<not> engRunning s \<Longrightarrow> \<not> engChan s \<Longrightarrow>
   wg s' = wg s"
proof (induction as arbitrary: s)
  case Nil
  then show ?case by simp
next
  case (Cons a as)
  then obtain s1 where 1: "step a s = Some s1" "exec as s1 = Some s'"
    by (auto split: option.splits)
  have "wg s1 = wg s \<and> \<not> engRunning s1 \<and> \<not> engChan s1"
    using 1(1) Cons.prems(2,3,4) by (cases a) (auto simp: step_def wgDone_def split: if_splits)
  then show ?case using Cons.IH [OF 1(2)] Cons.prems by simp
qed

text \<open>
  C2, at the input where the code departs from it. When the engine's start routine returns,
  the select takes the \<^verbatim>\<open>engChan\<close> case and \<^verbatim>\<open>serv.Exit()\<close> is called. When the
  service's start routine returns, its completion stands on \<^verbatim>\<open>servChan\<close>, neither
  channel case of the select can be taken, and \<^verbatim>\<open>engine.Exit()\<close> has not been called.
\<close>

theorem service_completion_unobserved:
  "exec [EngineStartReturns, SelectEngChan] started =
     Some (started\<lparr>engRunning := False, servExits := 1, wg := 1\<rparr>) \<and>
   exec [ServRunReturns] started = Some (started\<lparr>servRunning := False, servChan := True\<rparr>) \<and>
   selectBlocked (started\<lparr>servRunning := False, servChan := True\<rparr>) \<and>
   engExits (started\<lparr>servRunning := False, servChan := True\<rparr>) = 0"
  by (simp add: started_def step_def wgDone_def selectBlocked_def)

text \<open>
  From the start no send ever stands on \<^verbatim>\<open>rpcChan\<close>, so its case of the select is never
  taken, \<^verbatim>\<open>wg.Done()\<close> is called at most once and the counter stays above zero:
  \<^verbatim>\<open>wg.Wait()\<close> does not return, whatever the subsystems and the signals do.
\<close>

lemma counter_stays_positive:
  assumes "exec as s = Some s'" and "rpcChan s = 0" and "\<not> crashed s"
    and "\<not> (engRunning s \<and> engChan s)"
    and "wg s = (if engRunning s \<or> engChan s then 2 else 1)"
  shows "rpcChan s' = 0 \<and> \<not> crashed s' \<and> \<not> (engRunning s' \<and> engChan s') \<and>
         wg s' = (if engRunning s' \<or> engChan s' then 2 else 1)"
  using assms
proof (induction as arbitrary: s)
  case Nil
  then show ?case by simp
next
  case (Cons a as)
  then obtain s1 where 1: "step a s = Some s1" "exec as s1 = Some s'"
    by (auto split: option.splits)
  have "rpcChan s1 = 0 \<and> \<not> crashed s1 \<and> \<not> (engRunning s1 \<and> engChan s1) \<and>
        wg s1 = (if engRunning s1 \<or> engChan s1 then 2 else 1)"
    using 1(1) Cons.prems(2,3,4,5) by (cases a) (auto simp: step_def wgDone_def split: if_splits)
  then show ?case using Cons.IH [OF 1(2)] by simp
qed

lemma wait_never_returns: "exec as started = Some s' \<Longrightarrow> \<not> waitReturns s'"
  using counter_stays_positive [of as started s']
  by (auto simp: started_def waitReturns_def split: if_splits)

end
